(* ===== verification/Prelude.thy ===== *)
theory Prelude
  imports Complex_Main "HOL-Library.Multiset"
begin

text \<open>
  Shared vocabulary of the development of \<^verbatim>\<open>src/script.js\<close>: the stream of values
  returned by \<^verbatim>\<open>Math.random()\<close>, the JavaScript array operations the script relies on
  (\<^verbatim>\<open>indexOf\<close>, \<^verbatim>\<open>includes\<close>, reading a cell that may be \<^verbatim>\<open>null\<close>), and the
  generic lemmas on lists and options that the component theories share.
\<close>

named_theorems js_simps \<open>evaluation rules for the JavaScript helpers of the model\<close>

subsection \<open>The random stream\<close>

text \<open>
  Every call of \<^verbatim>\<open>Math.random()\<close> returns a number in \<open>[0, 1)\<close>. A handler of the
  script is modelled as a function of the list of values these calls return, in call
  order. The list is finite: a handler that would need more values than the list holds
  does not finish in the model (\<open>None\<close>), which is how the unbounded rejection loops of
  the script get a total model. A list is admissible when all its values are in range.
\<close>

type_synonym rng = "real list"

definition valid_rng :: "rng \<Rightarrow> bool" where
  "valid_rng us \<longleftrightarrow> list_all (\<lambda>u. 0 \<le> u \<and> u < 1) us"

lemma valid_rng_Nil [simp]: "valid_rng []"
  by (simp add: valid_rng_def)

lemma valid_rng_Cons [simp]: "valid_rng (u # us) \<longleftrightarrow> 0 \<le> u \<and> u < 1 \<and> valid_rng us"
  by (simp add: valid_rng_def)

lemma valid_rng_append [simp]: "valid_rng (us @ vs) \<longleftrightarrow> valid_rng us \<and> valid_rng vs"
  by (simp add: valid_rng_def)

lemma valid_rng_replicate_zero [simp]: "valid_rng (replicate n 0)"
  by (induction n) auto

subsection \<open>Reading an array element\<close>

text \<open>
  \<^verbatim>\<open>xs[i]\<close> is \<^verbatim>\<open>undefined\<close> when \<open>i\<close> is not an index of \<open>xs\<close>; the model
  returns \<open>None\<close> there instead of the unspecified \<open>xs ! i\<close> of HOL.
\<close>

definition js_get :: "'a list \<Rightarrow> int \<Rightarrow> 'a option" where
  "js_get xs i = (if 0 \<le> i \<and> nat i < length xs then Some (xs ! nat i) else None)"

lemma js_get_nat [js_simps]: "i < length xs \<Longrightarrow> js_get xs (int i) = Some (xs ! i)"
  by (simp add: js_get_def)

lemma js_get_in_range [js_simps]:
  "0 \<le> i \<Longrightarrow> nat i < length xs \<Longrightarrow> js_get xs i = Some (xs ! nat i)"
  by (simp add: js_get_def)

subsection \<open>Array.prototype.indexOf\<close>

text \<open>
  \<^verbatim>\<open>xs.indexOf(a)\<close> is the first position of \<open>a\<close> in \<open>xs\<close>, and \<open>-1\<close> when
  \<open>a\<close> does not occur.
\<close>

fun index_of :: "'a list \<Rightarrow> 'a \<Rightarrow> nat" where
  "index_of [] a = 0"
| "index_of (x # xs) a = (if x = a then 0 else Suc (index_of xs a))"

definition indexOf :: "'a list \<Rightarrow> 'a \<Rightarrow> int" where
  "indexOf xs a = (if a \<in> set xs then int (index_of xs a) else -1)"

lemma index_of_less [simp]: "a \<in> set xs \<Longrightarrow> index_of xs a < length xs"
  by (induction xs) auto

lemma nth_index_of [simp]: "a \<in> set xs \<Longrightarrow> xs ! index_of xs a = a"
  by (induction xs) auto

lemma index_of_first: "k < index_of xs a \<Longrightarrow> xs ! k \<noteq> a"
proof (induction xs arbitrary: k)
  case Nil
  then show ?case by simp
next
  case (Cons x xs)
  then show ?case by (cases k) (auto split: if_splits)
qed

lemma indexOf_member [js_simps]: "a \<in> set xs \<Longrightarrow> indexOf xs a = int (index_of xs a)"
  by (simp add: indexOf_def)

subsection \<open>Rows with empty cells\<close>

text \<open>
  A row of the ticket grid is an array whose cells are a number or \<^verbatim>\<open>null\<close>,
  modelled as \<open>int option list\<close>; \<^verbatim>\<open>row.filter(num => num !== null).length\<close> is
  \<open>count_nonnull\<close>.
\<close>

definition count_nonnull :: "'a option list \<Rightarrow> nat" where
  "count_nonnull row = length (filter (\<lambda>x. x \<noteq> None) row)"

lemma count_nonnull_Nil [simp]: "count_nonnull [] = 0"
  by (simp add: count_nonnull_def)

lemma count_nonnull_Cons [simp]:
  "count_nonnull (x # xs) = (if x = None then count_nonnull xs else Suc (count_nonnull xs))"
  by (simp add: count_nonnull_def)

lemma count_nonnull_replicate_None [simp]: "count_nonnull (replicate n None) = 0"
  by (induction n) auto

lemma count_nonnull_update_None:
  "i < length xs \<Longrightarrow> xs ! i = None \<Longrightarrow> count_nonnull (xs[i := Some v]) = Suc (count_nonnull xs)"
proof (induction xs arbitrary: i)
  case Nil
  then show ?case by simp
next
  case (Cons x xs)
  then show ?case by (cases i) auto
qed

lemma count_nonnull_le_length: "count_nonnull xs \<le> length xs"
  by (simp add: count_nonnull_def)

subsection \<open>Generic list lemmas\<close>

lemma length_filter_imp:
  "(\<And>x. x \<in> set xs \<Longrightarrow> P x \<Longrightarrow> Q x) \<Longrightarrow> length (filter P xs) \<le> length (filter Q xs)"
  by (induction xs) auto

lemma set_butlast_distinct:
  assumes "distinct xs" "xs \<noteq> []"
  shows "set (butlast xs) = set xs - {last xs}"
proof -
  have xs: "xs = butlast xs @ [last xs]" using assms(2) by simp
  then have "last xs \<notin> set (butlast xs)" using assms(1) by (metis distinct_append disjoint_iff list.set_intros(1))
  moreover have "set xs = insert (last xs) (set (butlast xs))" using xs by (metis Un_insert_right append_Nil2 list.simps(15) set_append)
  ultimately show ?thesis by auto
qed

lemma mset_map_filter_update:
  "i < length xs \<Longrightarrow> xs ! i = None \<Longrightarrow>
   mset (List.map_filter id (xs[i := Some v])) = add_mset v (mset (List.map_filter id xs))"
proof (induction xs arbitrary: i)
  case Nil
  then show ?case by simp
next
  case (Cons x xs)
  then show ?case by (cases i) (auto simp: List.map_filter_simps split: option.splits)
qed


text \<open>Popping the last element of a list removes it from the multiset of elements.\<close>

lemma mset_butlast_last:
  "xs \<noteq> [] \<Longrightarrow> mset (butlast xs) = mset xs - {#last xs#}"
  by (metis add_mset_remove_trivial append_butlast_last_id mset_append mset_single_iff_right
      union_mset_add_mset_right add.right_neutral)

lemma in_mset_diff: "x \<in> set xs \<Longrightarrow> x \<notin> set ys \<Longrightarrow> x \<in># mset xs - mset ys"
  by (metis count_mset_0_iff gr0I in_diff_count)

lemma length_filter_nth:
  "length (filter (\<lambda>i. P (xs ! i)) [0..<length xs]) = length (filter P xs)"
proof -
  have "length (filter P xs) = length (filter P (map ((!) xs) [0..<length xs]))" by (simp add: map_nth)
  also have "\<dots> = length (filter (\<lambda>i. P (xs ! i)) [0..<length xs])" by (simp add: filter_map comp_def)
  finally show ?thesis by simp
qed

end
