(* ===== verification/Random_Source.thy ===== *)
theory Random_Source
  imports Prelude
begin

text \<open>
  The random source of \<^verbatim>\<open>src/script.js\<close>: \<^verbatim>\<open>generateRandomNumber(min, max)\<close>
  (lines 2--4) and the idiom \<^verbatim>\<open>Math.floor(Math.random() * n)\<close> that the script
  uses to pick an array index (lines 54 and 114). Both are functions of the value
  \<open>u\<close> returned by \<^verbatim>\<open>Math.random()\<close>; arithmetic is exact (real numbers), the
  rounding of IEEE doubles is not modelled. The lemmas give the range of each result and
  the exact set of values of \<open>u\<close> that produce a given result: an interval of length
  \<open>1 / n\<close> for each of the \<open>n\<close> outcomes, which is the uniformity the spec asks of
  the random source.
\<close>

definition generateRandomNumber :: "int \<Rightarrow> int \<Rightarrow> real \<Rightarrow> int" where
  "generateRandomNumber lo hi u = \<lfloor>u * of_int (hi - lo + 1)\<rfloor> + lo"

definition random_index :: "real \<Rightarrow> nat \<Rightarrow> nat" where
  "random_index u n = nat \<lfloor>u * real n\<rfloor>"

text \<open>The value of \<^verbatim>\<open>Math.random()\<close> at the left end of the interval producing \<open>k\<close>.\<close>

definition rand_for :: "int \<Rightarrow> int \<Rightarrow> int \<Rightarrow> real" where
  "rand_for lo hi k = of_int (k - lo) / of_int (hi - lo + 1)"

definition index_rand :: "nat \<Rightarrow> nat \<Rightarrow> real" where
  "index_rand k n = real k / real n"

subsection \<open>Range\<close>

lemma generateRandomNumber_ge:
  assumes "lo \<le> hi" "0 \<le> u"
  shows "lo \<le> generateRandomNumber lo hi u"
proof -
  have "0 \<le> u * of_int (hi - lo + 1)" using assms by simp
  then show ?thesis by (simp add: generateRandomNumber_def)
qed

lemma generateRandomNumber_le:
  assumes "lo \<le> hi" "u < 1"
  shows "generateRandomNumber lo hi u \<le> hi"
proof -
  have pos: "(0::real) < of_int (hi - lo + 1)" using assms(1) by simp
  have "u * of_int (hi - lo + 1) < of_int (hi - lo + 1)"
    using assms(2) pos by simp
  then have "\<lfloor>u * of_int (hi - lo + 1)\<rfloor> < hi - lo + 1"
    by (simp only: floor_less_iff)
  then show ?thesis by (simp add: generateRandomNumber_def)
qed

lemma random_index_less:
  assumes "0 \<le> u" "u < 1" "0 < n"
  shows "random_index u n < n"
proof -
  have "u * real n < real n" using assms by simp
  then have "\<lfloor>u * real n\<rfloor> < int n" by (simp only: floor_less_iff of_int_of_nat_eq)
  moreover have "0 \<le> \<lfloor>u * real n\<rfloor>" using assms(1) by simp
  ultimately show ?thesis by (simp add: random_index_def nat_less_iff)
qed

subsection \<open>Preimages\<close>

lemma generateRandomNumber_eq_iff:
  assumes "lo \<le> hi"
  shows "generateRandomNumber lo hi u = k \<longleftrightarrow>
           rand_for lo hi k \<le> u \<and> u < rand_for lo hi (k + 1)"
proof -
  define n where "n = (of_int (hi - lo + 1) :: real)"
  have pos: "0 < n" using assms by (simp add: n_def)
  have "generateRandomNumber lo hi u = k \<longleftrightarrow> \<lfloor>u * n\<rfloor> = k - lo"
    by (auto simp: generateRandomNumber_def n_def)
  also have "\<dots> \<longleftrightarrow> of_int (k - lo) \<le> u * n \<and> u * n < of_int (k - lo) + 1"
    by (rule floor_eq_iff)
  also have "\<dots> \<longleftrightarrow> of_int (k - lo) / n \<le> u \<and> u < (of_int (k - lo) + 1) / n"
    using pos by (simp add: pos_divide_le_eq pos_less_divide_eq)
  finally show ?thesis
    unfolding rand_for_def n_def by (simp add: algebra_simps)
qed

lemma rand_for_range:
  assumes "lo \<le> k" "k \<le> hi"
  shows "0 \<le> rand_for lo hi k \<and> rand_for lo hi k < 1"
  using assms by (simp add: rand_for_def divide_less_eq)

lemma generateRandomNumber_rand_for [simp]:
  assumes "lo \<le> k" "k \<le> hi"
  shows "generateRandomNumber lo hi (rand_for lo hi k) = k"
proof -
  have "rand_for lo hi k < rand_for lo hi (k + 1)"
    using assms by (simp add: rand_for_def divide_strict_right_mono)
  then show ?thesis
    using assms by (simp add: generateRandomNumber_eq_iff)
qed

lemma index_rand_range: "k < n \<Longrightarrow> 0 \<le> index_rand k n \<and> index_rand k n < 1"
  by (simp add: index_rand_def)

lemma random_index_index_rand [simp]: "k < n \<Longrightarrow> random_index (index_rand k n) n = k"
  by (simp add: random_index_def index_rand_def)

text \<open>
  C17. \<^verbatim>\<open>generateRandomNumber(lo, hi)\<close> is uniform on \<open>[lo, hi]\<close>: the values of
  \<^verbatim>\<open>Math.random()\<close> that produce \<open>k\<close> form the interval
  \<open>[rand_for lo hi k, rand_for lo hi (k + 1))\<close>, whose length is
  \<open>1 / (hi - lo + 1)\<close> for every \<open>k\<close>.
\<close>

theorem generateRandomNumber_uniform:
  assumes "lo \<le> hi"
  shows "{u. generateRandomNumber lo hi u = k} = {rand_for lo hi k ..< rand_for lo hi (k + 1)} \<and>
         rand_for lo hi (k + 1) - rand_for lo hi k = 1 / of_int (hi - lo + 1)"
proof
  show "{u. generateRandomNumber lo hi u = k} = {rand_for lo hi k ..< rand_for lo hi (k + 1)}"
    using generateRandomNumber_eq_iff[OF assms] by auto
  show "rand_for lo hi (k + 1) - rand_for lo hi k = 1 / of_int (hi - lo + 1)"
    by (simp add: rand_for_def diff_divide_distrib [symmetric])
qed

theorem generateRandomNumber_uniform_witness:
  "{u. generateRandomNumber 1 99 u = 50} = {49 / 99 ..< 50 / 99} \<and> (50 / 99 - 49 / 99 :: real) = 1 / 99"
  using generateRandomNumber_uniform[of 1 99 50] by (simp add: rand_for_def)

end
