(* ===== verification/Ticket_Generator.thy ===== *)
theory Ticket_Generator
  imports Random_Source
begin

text \<open>
  Ticket generation, \<^verbatim>\<open>generateLottoTicket\<close> (\<^verbatim>\<open>src/script.js\<close> lines 7--21)
  and \<^verbatim>\<open>generateMultipleTickets\<close> (lines 24--30). The rejection loop draws numbers
  in \<open>[1, 99]\<close> and keeps a number when it is new and its column
  \<open>\<lfloor>(num - 1) / 10\<rfloor>\<close> holds fewer than three numbers; the array \<^verbatim>\<open>columns\<close>
  of per-column counts is part of the loop state. The loop consumes one value of the
  random stream per iteration and does not finish when the stream runs out.
\<close>

definition column_of :: "int \<Rightarrow> int" where
  "column_of num = (num - 1) div 10"

text \<open>\<^verbatim>\<open>columns[column] < 3\<close>: an \<^verbatim>\<open>undefined\<close> entry compares false.\<close>

definition column_free :: "nat list \<Rightarrow> int \<Rightarrow> bool" where
  "column_free columns column = (case js_get columns column of None \<Rightarrow> False | Some k \<Rightarrow> k < 3)"

fun ticket_loop :: "rng \<Rightarrow> int list \<Rightarrow> nat list \<Rightarrow> (int list \<times> nat list \<times> rng) option" where
  "ticket_loop [] ticket columns =
     (if length ticket < 15 then None else Some (ticket, columns, []))"
| "ticket_loop (u # us) ticket columns =
     (if length ticket < 15 then
        (let num = generateRandomNumber 1 99 u;
             column = column_of num
         in if num \<notin> set ticket \<and> column_free columns column
            then ticket_loop us (ticket @ [num]) (columns[nat column := Suc (columns ! nat column)])
            else ticket_loop us ticket columns)
      else Some (ticket, columns, u # us))"

definition generateLottoTicket :: "rng \<Rightarrow> (int list \<times> rng) option" where
  "generateLottoTicket us =
     (case ticket_loop us [] (replicate 10 0) of
        None \<Rightarrow> None
      | Some (ticket, columns, rest) \<Rightarrow> Some (sort ticket, rest))"

function tickets_loop :: "int \<Rightarrow> int \<Rightarrow> int list list \<Rightarrow> rng \<Rightarrow> (int list list \<times> rng) option" where
  "tickets_loop n i tickets us =
     (if i < n then
        (case generateLottoTicket us of
           None \<Rightarrow> None
         | Some (t, us') \<Rightarrow> tickets_loop n (i + 1) (tickets @ [t]) us')
      else Some (tickets, us))"
  by pat_completeness auto
termination
  by (relation "measure (\<lambda>(n, i, _, _). nat (n - i))") auto

declare tickets_loop.simps [simp del]

definition generateMultipleTickets :: "int \<Rightarrow> rng \<Rightarrow> (int list list \<times> rng) option" where
  "generateMultipleTickets n us = tickets_loop n 0 [] us"

subsection \<open>Tickets and the loop invariant\<close>

definition col_count :: "int list \<Rightarrow> int \<Rightarrow> nat" where
  "col_count t c = length (filter (\<lambda>x. column_of x = c) t)"

definition valid_ticket :: "int list \<Rightarrow> bool" where
  "valid_ticket t \<longleftrightarrow> length t = 15 \<and> distinct t \<and> sorted t \<and>
     list_all (\<lambda>x. 1 \<le> x \<and> x \<le> 99) t \<and> list_all (\<lambda>c. col_count t c \<le> 3) [0..9]"

definition ticket_inv :: "int list \<Rightarrow> nat list \<Rightarrow> bool" where
  "ticket_inv t columns \<longleftrightarrow> length columns = 10 \<and> distinct t \<and> length t \<le> 15 \<and>
     (\<forall>x\<in>set t. 1 \<le> x \<and> x \<le> 99) \<and>
     (\<forall>c<10. columns ! c = col_count t (int c) \<and> columns ! c \<le> 3)"


lemma column_of_range: "1 \<le> x \<Longrightarrow> x \<le> 99 \<Longrightarrow> 0 \<le> column_of x \<and> column_of x < 10"
  by (auto simp: column_of_def)

lemma col_count_append [simp]:
  "col_count (t @ [x]) c = col_count t c + (if column_of x = c then 1 else 0)"
  by (simp add: col_count_def)

lemma col_count_mset: "mset xs = mset ys \<Longrightarrow> col_count xs c = col_count ys c"
  by (metis col_count_def mset_filter size_mset)

lemma column_free_iff:
  "length columns = 10 \<Longrightarrow> 0 \<le> c \<Longrightarrow> c < 10 \<Longrightarrow> column_free columns c \<longleftrightarrow> columns ! nat c < 3"
  by (simp add: column_free_def js_get_def nat_less_iff)

lemma ticket_inv_init: "ticket_inv [] (replicate 10 0)"
  by (simp add: ticket_inv_def col_count_def)

lemma ticket_inv_step:
  assumes inv: "ticket_inv t columns" and len: "length t < 15"
    and num: "1 \<le> num" "num \<le> 99" "num \<notin> set t"
    and free: "column_free columns (column_of num)"
  shows "ticket_inv (t @ [num])
           (columns[nat (column_of num) := Suc (columns ! nat (column_of num))])"
proof -
  let ?c = "column_of num"
  have c: "0 \<le> ?c" "?c < 10" using column_of_range num(1,2) by auto
  have lc: "length columns = 10" using inv by (simp add: ticket_inv_def)
  have lt3: "columns ! nat ?c < 3" using free c lc by (simp add: column_free_iff)
  show ?thesis
    unfolding ticket_inv_def
  proof (intro conjI allI impI)
    fix k :: nat assume k: "k < 10"
    have old: "columns ! k = col_count t (int k)" "columns ! k \<le> 3"
      using inv k by (auto simp: ticket_inv_def)
    show "columns[nat ?c := Suc (columns ! nat ?c)] ! k = col_count (t @ [num]) (int k)"
      using old k c lc by (cases "k = nat ?c") auto
    show "columns[nat ?c := Suc (columns ! nat ?c)] ! k \<le> 3"
      using old k c lc lt3 by (cases "k = nat ?c") auto
  qed (use inv len num lc in \<open>auto simp: ticket_inv_def\<close>)
qed

lemma ticket_loop_inv:
  "ticket_loop us t columns = Some (t', columns', rest) \<Longrightarrow> ticket_inv t columns \<Longrightarrow>
   valid_rng us \<Longrightarrow> ticket_inv t' columns' \<and> length t' = 15 \<and> (\<exists>pre. us = pre @ rest)"
proof (induction us t columns rule: ticket_loop.induct)
  case (1 ticket columns)
  then show ?case by (auto simp: ticket_inv_def split: if_splits)
next
  case (2 u us ticket columns)
  let ?num = "generateRandomNumber 1 99 u"
  show ?case
  proof (cases "length ticket < 15")
    case False
    with "2.prems" show ?thesis by (auto simp: ticket_inv_def)
  next
    case True
    have range: "1 \<le> ?num" "?num \<le> 99"
      using "2.prems"(3) generateRandomNumber_ge generateRandomNumber_le by auto
    show ?thesis
    proof (cases "?num \<notin> set ticket \<and> column_free columns (column_of ?num)")
      case acc: True
      with True "2.prems" have "ticket_loop us (ticket @ [?num])
          (columns[nat (column_of ?num) := Suc (columns ! nat (column_of ?num))]) = Some (t', columns', rest)"
        by (simp add: Let_def)
      moreover have "ticket_inv (ticket @ [?num])
          (columns[nat (column_of ?num) := Suc (columns ! nat (column_of ?num))])"
        using ticket_inv_step "2.prems"(2) True range acc by blast
      ultimately show ?thesis
        using "2.IH"(1) True "2.prems"(3) acc by (fastforce simp: Let_def)
    next
      case rej: False
      with True "2.prems" have "ticket_loop us ticket columns = Some (t', columns', rest)"
        by (auto simp: Let_def)
      then show ?thesis
        using "2.IH"(2) True "2.prems"(2,3) rej by (fastforce simp: Let_def)
    qed
  qed
qed

lemma valid_ticket_sort:
  assumes "ticket_inv t columns" "length t = 15"
  shows "valid_ticket (sort t)"
proof -
  have cnt: "\<forall>c<10. col_count t (int c) \<le> 3" using assms(1) by (auto simp: ticket_inv_def)
  have "col_count (sort t) c \<le> 3" if "c \<in> set [0..9]" for c
  proof -
    from that have "c = int (nat c)" "nat c < 10" by auto
    then have "col_count t c \<le> 3" using cnt by metis
    then show ?thesis by (simp add: col_count_mset[of "sort t" t])
  qed
  then show ?thesis
    using assms by (auto simp: valid_ticket_def ticket_inv_def list_all_iff)
qed

lemma generateLottoTicket_sound:
  assumes v: "valid_rng us" and g: "generateLottoTicket us = Some (t, rest)"
  shows "valid_ticket t \<and> (\<exists>pre. us = pre @ rest)"
proof -
  obtain t0 cs where l: "ticket_loop us [] (replicate 10 0) = Some (t0, cs, rest)"
    and t: "t = sort t0"
    using g by (auto simp: generateLottoTicket_def split: option.splits)
  from ticket_loop_inv[OF l ticket_inv_init v] have "ticket_inv t0 cs" "length t0 = 15"
    and "\<exists>pre. us = pre @ rest" by auto
  then show ?thesis using t valid_ticket_sort by blast
qed

lemma col_count_Cons:
  "col_count (x # t) c = (if column_of x = c then 1 else 0) + col_count t c"
  by (simp add: col_count_def)

lemma length_by_columns:
  "\<forall>x\<in>set t. 0 \<le> column_of x \<and> column_of x < 10 \<Longrightarrow>
   length t = (\<Sum>c<10. col_count t (int c))"
proof (induction t)
  case Nil
  then show ?case by (simp add: col_count_def)
next
  case (Cons x t)
  let ?k = "nat (column_of x)"
  have k: "?k < 10" "column_of x = int ?k" using Cons.prems by auto
  have "(\<Sum>c<10. (if column_of x = int c then 1 else 0 :: nat)) = (\<Sum>c<10. (if c = ?k then 1 else 0))"
    using k(2) by (intro sum.cong) auto
  also have "\<dots> = 1" using k(1) by simp
  finally have one: "(\<Sum>c<10. (if column_of x = int c then 1 else 0 :: nat)) = 1" .
  have "(\<Sum>c<10. col_count (x # t) (int c)) =
        (\<Sum>c<10. (if column_of x = int c then 1 else 0)) + (\<Sum>c<10. col_count t (int c))"
    by (simp add: col_count_Cons sum.distrib)
  then show ?case using one Cons by simp
qed

lemma exists_sparse_column:
  assumes "\<forall>x\<in>set t. 1 \<le> x \<and> x \<le> 99" "length t < 30"
  shows "\<exists>c<10. col_count t (int c) < 3"
proof (rule ccontr)
  assume "\<not> ?thesis"
  then have h: "\<forall>c<10. 3 \<le> col_count t (int c)" by (metis not_less)
  have "(\<Sum>c<(10::nat). (3::nat)) \<le> (\<Sum>c<10. col_count t (int c))"
    using h by (intro sum_mono) auto
  also have "\<dots> = length t"
    using assms(1) column_of_range by (intro length_by_columns [symmetric]) auto
  finally show False using assms(2) by simp
qed

lemma exists_acceptable:
  assumes inv: "ticket_inv t columns" and len: "length t < 15"
  shows "\<exists>x. 1 \<le> x \<and> x \<le> 99 \<and> x \<notin> set t \<and> column_free columns (column_of x)"
proof -
  have range: "\<forall>x\<in>set t. 1 \<le> x \<and> x \<le> 99" using inv by (simp add: ticket_inv_def)
  obtain c where c: "c < 10" "col_count t (int c) < 3"
    using exists_sparse_column[OF range] len by auto
  define B where "B = {10 * int c + 1, 10 * int c + 2, 10 * int c + 3}"
  have colB: "column_of x = int c" if "x \<in> B" for x
    using that by (auto simp: B_def column_of_def)
  have "card B = 3" by (simp add: B_def)
  have "\<not> B \<subseteq> set t"
  proof
    assume "B \<subseteq> set t"
    then have "B \<subseteq> set (filter (\<lambda>x. column_of x = int c) t)" using colB by auto
    then have "card B \<le> length (filter (\<lambda>x. column_of x = int c) t)"
      by (metis List.finite_set card_length card_mono order_trans)
    then show False using c(2) \<open>card B = 3\<close> by (simp add: col_count_def)
  qed
  then obtain x where x: "x \<in> B" "x \<notin> set t" by auto
  have xr: "1 \<le> x" "x \<le> 99" using x(1) c(1) by (auto simp: B_def)
  have "columns ! c = col_count t (int c)" "length columns = 10"
    using inv c(1) by (auto simp: ticket_inv_def)
  then have "column_free columns (column_of x)"
    using colB[OF x(1)] c by (simp add: column_free_iff)
  then show ?thesis using x xr by blast
qed

lemma ticket_loop_completes:
  "ticket_inv t columns \<Longrightarrow> n = 15 - length t \<Longrightarrow>
   \<exists>us t' columns'. valid_rng us \<and> length us = n \<and>
     ticket_loop us t columns = Some (t', columns', [])"
proof (induction n arbitrary: t columns)
  case 0
  then have "length t = 15" by (simp add: ticket_inv_def)
  then have "ticket_loop [] t columns = Some (t, columns, [])" by simp
  then show ?case using "0.prems"(2) by fastforce
next
  case (Suc n)
  then have len: "length t < 15" by simp
  obtain x where x: "1 \<le> x" "x \<le> 99" "x \<notin> set t" "column_free columns (column_of x)"
    using exists_acceptable[OF Suc.prems(1) len] by blast
  let ?u = "rand_for 1 99 x"
  let ?cs = "columns[nat (column_of x) := Suc (columns ! nat (column_of x))]"
  have u: "0 \<le> ?u" "?u < 1" using rand_for_range x(1,2) by auto
  have gu: "generateRandomNumber 1 99 ?u = x" using x(1,2) by simp
  have inv': "ticket_inv (t @ [x]) ?cs" using ticket_inv_step[OF Suc.prems(1) len x] .
  have n: "n = 15 - length (t @ [x])" using Suc.prems(2) by simp
  obtain us t' cs' where us: "valid_rng us" "length us = n"
      "ticket_loop us (t @ [x]) ?cs = Some (t', cs', [])"
    using Suc.IH[OF inv' n] by blast
  have "ticket_loop (?u # us) t columns = Some (t', cs', [])"
    using len gu x(3,4) us(3) by (simp add: Let_def)
  then show ?case using us u by (intro exI[of _ "?u # us"]) auto
qed

lemma ticket_loop_append:
  "ticket_loop us t columns = Some (t', columns', rest) \<Longrightarrow>
   ticket_loop (us @ vs) t columns = Some (t', columns', rest @ vs)"
proof (induction us t columns rule: ticket_loop.induct)
  case (1 ticket columns)
  then show ?case by (cases vs) (auto split: if_splits)
next
  case (2 u us ticket columns)
  then show ?case by (auto simp: Let_def split: if_splits)
qed

text \<open>
  C19. Progress of the rejection loop, the reason it terminates with probability 1: from
  every state of the loop that the invariant allows and that still lacks numbers, there is
  a number \<open>x\<close> that the next iteration accepts for every value \<open>u\<close> of
  \<^verbatim>\<open>Math.random()\<close> in an interval of width \<open>1/99\<close>, whatever the later values are;
  the loop then continues from a state that again satisfies the invariant. So each
  iteration adds a number with probability at least \<open>1/99\<close>, and fifteen accepted
  iterations end the loop. The pigeonhole lemma \<open>exists_acceptable\<close> (ten columns of
  three slots, fifteen numbers) provides \<open>x\<close>.
\<close>

theorem ticket_loop_progress:
  assumes inv: "ticket_inv t columns" and len: "length t < 15"
  shows "\<exists>x. 1 \<le> x \<and> x \<le> 99 \<and> x \<notin> set t \<and>
    rand_for 1 99 (x + 1) - rand_for 1 99 x = 1 / 99 \<and>
    (\<forall>u us. rand_for 1 99 x \<le> u \<and> u < rand_for 1 99 (x + 1) \<longrightarrow>
       ticket_loop (u # us) t columns =
       ticket_loop us (t @ [x]) (columns[nat (column_of x) := Suc (columns ! nat (column_of x))])) \<and>
    ticket_inv (t @ [x]) (columns[nat (column_of x) := Suc (columns ! nat (column_of x))])"
proof -
  obtain x where x: "1 \<le> x" "x \<le> 99" "x \<notin> set t" "column_free columns (column_of x)"
    using exists_acceptable[OF inv len] by blast
  have acc: "ticket_loop (u # us) t columns =
      ticket_loop us (t @ [x]) (columns[nat (column_of x) := Suc (columns ! nat (column_of x))])"
    if "rand_for 1 99 x \<le> u" "u < rand_for 1 99 (x + 1)" for u us
  proof -
    have "generateRandomNumber 1 99 u = x" using that by (simp add: generateRandomNumber_eq_iff)
    then show ?thesis using len x(3,4) by (simp add: Let_def)
  qed
  have "rand_for 1 99 (x + 1) - rand_for 1 99 x = 1 / 99"
    by (simp add: rand_for_def diff_divide_distrib [symmetric])
  then show ?thesis using x acc ticket_inv_step[OF inv len x] by blast
qed

theorem ticket_loop_progress_witness:
  "ticket_inv [] (replicate 10 0) \<and> length ([] :: int list) < 15 \<and>
   (\<exists>x. 1 \<le> x \<and> x \<le> 99 \<and> rand_for 1 99 (x + 1) - rand_for 1 99 x = 1 / 99 \<and>
      ticket_inv [x] ((replicate 10 0)[nat (column_of x) := Suc (replicate 10 0 ! nat (column_of x))]))"
  using ticket_loop_progress[OF ticket_inv_init] ticket_inv_init by fastforce

lemma tickets_loop_valid:
  "tickets_loop n i tks us = Some (ts, rest) \<Longrightarrow> valid_rng us \<Longrightarrow> list_all valid_ticket tks \<Longrightarrow>
   list_all valid_ticket ts \<and> length ts = length tks + nat (n - i) \<and> valid_rng rest"
proof (induction n i tks us rule: tickets_loop.induct)
  case (1 n i tickets us)
  show ?case
  proof (cases "i < n")
    case False
    with "1.prems" show ?thesis by (simp add: tickets_loop.simps[of n i])
  next
    case True
    with "1.prems"(1) obtain t us' where g: "generateLottoTicket us = Some (t, us')"
      and l: "tickets_loop n (i + 1) (tickets @ [t]) us' = Some (ts, rest)"
      by (auto simp: tickets_loop.simps[of n i] split: option.splits)
    have "valid_ticket t" "valid_rng us'"
      using generateLottoTicket_sound[OF "1.prems"(2) g] "1.prems"(2) by auto
    then show ?thesis
      using "1.IH"[OF True g refl l] "1.prems"(3) True by auto
  qed
qed

text \<open>
  C21. \<^verbatim>\<open>generateMultipleTickets(n)\<close>, when it returns, returns \<open>n\<close> tickets
  (none when \<open>n \<le> 0\<close>), each of them valid.
\<close>

theorem generateMultipleTickets_valid:
  "valid_rng us \<Longrightarrow> generateMultipleTickets n us = Some (ts, rest) \<Longrightarrow>
   length ts = nat n \<and> list_all valid_ticket ts"
  using tickets_loop_valid[of n 0 "[]" us ts rest] by (simp add: generateMultipleTickets_def)

theorem generateMultipleTickets_valid_witness:
  "valid_rng (map (rand_for 1 99) [1,2,3,11,12,13,21,22,23,31,32,33,41,42,43]) \<and>
   generateMultipleTickets 1 (map (rand_for 1 99) [1,2,3,11,12,13,21,22,23,31,32,33,41,42,43]) =
     Some ([[1,2,3,11,12,13,21,22,23,31,32,33,41,42,43]], []) \<and>
   length [[1,2,3,11,12,13,21,22,23,31,32,33,41,42,43::int]] = nat 1 \<and>
   list_all valid_ticket [[1,2,3,11,12,13,21,22,23,31,32,33,41,42,43]]"
proof -
  have v: "valid_rng (map (rand_for 1 99) [1,2,3,11,12,13,21,22,23,31,32,33,41,42,43])"
    by (simp add: rand_for_range)
  have g: "generateMultipleTickets 1 (map (rand_for 1 99) [1,2,3,11,12,13,21,22,23,31,32,33,41,42,43]) =
     Some ([[1,2,3,11,12,13,21,22,23,31,32,33,41,42,43]], [])"
    by (simp add: generateMultipleTickets_def tickets_loop.simps generateLottoTicket_def
        column_free_def column_of_def js_get_def)
  show ?thesis using v g generateMultipleTickets_valid[OF v g] by simp
qed

text \<open>
  C1. Every ticket \<^verbatim>\<open>generateLottoTicket\<close> returns has 15 distinct numbers in
  \<open>[1, 99]\<close>, sorted ascending, with at most three in each column, whatever values
  \<^verbatim>\<open>Math.random()\<close> returned.
\<close>

theorem generateLottoTicket_valid:
  "valid_rng us \<Longrightarrow> generateLottoTicket us = Some (t, rest) \<Longrightarrow> valid_ticket t"
  using generateLottoTicket_sound by blast

text \<open>C1 at a concrete stream: the fourth and fifth column-0 numbers are rejected.\<close>

theorem generateLottoTicket_valid_witness:
  "valid_rng (map (rand_for 1 99) [5,1,2,3,4,11,12,13,21,22,23,31,32,33,41,42,43]) \<and>
   generateLottoTicket (map (rand_for 1 99) [5,1,2,3,4,11,12,13,21,22,23,31,32,33,41,42,43]) =
     Some ([1,2,5,11,12,13,21,22,23,31,32,33,41,42,43], []) \<and>
   valid_ticket [1,2,5,11,12,13,21,22,23,31,32,33,41,42,43]"
proof -
  have v: "valid_rng (map (rand_for 1 99) [5,1,2,3,4,11,12,13,21,22,23,31,32,33,41,42,43])"
    by (simp add: rand_for_range)
  have g: "generateLottoTicket (map (rand_for 1 99) [5,1,2,3,4,11,12,13,21,22,23,31,32,33,41,42,43]) =
     Some ([1,2,5,11,12,13,21,22,23,31,32,33,41,42,43], [])"
    by (simp add: generateLottoTicket_def column_free_def column_of_def js_get_def)
  show ?thesis using v g generateLottoTicket_valid[OF v g] by simp
qed

end
