(* ===== verification/Grid_Packer.thy ===== *)
theory Grid_Packer
  imports Ticket_Generator
begin

text \<open>
  The grid packer, \<^verbatim>\<open>organizeTicket\<close> (\<^verbatim>\<open>src/script.js\<close> lines 33--65). A grid is
  the array of three rows of ten cells, each a number or \<^verbatim>\<open>null\<close>
  (\<open>int option list list\<close>); \<^verbatim>\<open>rows\<close> counts the numbers placed in each row.
  Phase one places each ticket number in its column, in the row with the fewest numbers
  (the first such row), moving on cyclically while that row's cell is taken: the inner
  \<^verbatim>\<open>while\<close> (lines 42--44) does not end when the column is full, so it is a
  \<^theory_text>\<open>partial_function\<close> in the option monad. Phase two (lines 50--62) fills every
  row with fewer than five numbers with random fillers, two values of the random stream
  per attempt. The array \<^verbatim>\<open>columns\<close> declared on line 35 is never used.
\<close>

type_synonym grid = "int option list list"

definition empty_grid :: grid where
  "empty_grid = replicate 3 (replicate 10 None)"

text \<open>\<^verbatim>\<open>organizedTicket[row][column] === null\<close>.\<close>

definition is_null :: "grid \<Rightarrow> nat \<Rightarrow> int \<Rightarrow> bool" where
  "is_null g row column \<longleftrightarrow>
     (case js_get g (int row) of None \<Rightarrow> False | Some r \<Rightarrow> js_get r column = Some None)"

partial_function (option) free_row :: "grid \<Rightarrow> int \<Rightarrow> nat \<Rightarrow> nat option" where
  "free_row g column row =
     (if is_null g row column then Some row else free_row g column ((row + 1) mod 3))"

declare free_row.simps [code]

definition place_num :: "grid \<times> nat list \<Rightarrow> int \<Rightarrow> (grid \<times> nat list) option" where
  "place_num st num =
     (let (g, rows) = st;
          column = column_of num;
          row0 = indexOf rows (min_list rows)
      in if row0 < 0 then None
         else case free_row g column (nat row0) of
                None \<Rightarrow> None
              | Some row \<Rightarrow> Some (g[row := (g ! row)[nat column := Some num]],
                                 rows[row := Suc (rows ! row)]))"

fun place_all :: "grid \<times> nat list \<Rightarrow> int list \<Rightarrow> (grid \<times> nat list) option" where
  "place_all st [] = Some st"
| "place_all st (num # nums) =
     (case place_num st num of None \<Rightarrow> None | Some st' \<Rightarrow> place_all st' nums)"

text \<open>\<^verbatim>\<open>row.map((num, index) => num === null ? index : null).filter(index => index !== null)\<close>\<close>

definition empty_columns :: "int option list \<Rightarrow> nat list" where
  "empty_columns row = filter (\<lambda>i. row ! i = None) [0..<length row]"

text \<open>
  One row of phase two; \<open>k\<close> is \<^verbatim>\<open>numbersInRow\<close>. When no cell is empty,
  \<^verbatim>\<open>columnToFill\<close> is \<^verbatim>\<open>undefined\<close>, the candidate is \<^verbatim>\<open>NaN\<close>, is accepted, and
  the assignment \<^verbatim>\<open>row[undefined] = NaN\<close> adds a property, not an element: the cells
  stay as they are and only the counter grows.
\<close>

fun fill_row :: "int list \<Rightarrow> rng \<Rightarrow> int option list \<Rightarrow> nat \<Rightarrow> (int option list \<times> rng) option" where
  "fill_row ticket [] row k = (if k < 5 then None else Some (row, []))"
| "fill_row ticket [u] row k = (if k < 5 then None else Some (row, [u]))"
| "fill_row ticket (u1 # u2 # us) row k =
     (if k < 5 then
        (let empties = empty_columns row in
         if empties = [] then fill_row ticket us row (Suc k)
         else
           (let col = empties ! random_index u1 (length empties);
                newNum = generateRandomNumber (int col * 10 + 1) (int col * 10 + 10) u2
            in if newNum \<notin> set ticket \<and> Some newNum \<notin> set row
               then fill_row ticket us (row[col := Some newNum]) (Suc k)
               else fill_row ticket us row k))
      else Some (row, u1 # u2 # us))"

fun fill_rows :: "int list \<Rightarrow> rng \<Rightarrow> grid \<Rightarrow> (grid \<times> rng) option" where
  "fill_rows ticket us [] = Some ([], us)"
| "fill_rows ticket us (row # rows) =
     (case fill_row ticket us row (count_nonnull row) of
        None \<Rightarrow> None
      | Some (row', us') \<Rightarrow>
          (case fill_rows ticket us' rows of
             None \<Rightarrow> None
           | Some (rows', us'') \<Rightarrow> Some (row' # rows', us'')))"

definition organizeTicket :: "int list \<Rightarrow> rng \<Rightarrow> (grid \<times> rng) option" where
  "organizeTicket ticket us =
     (case place_all (empty_grid, [0, 0, 0]) ticket of
        None \<Rightarrow> None
      | Some (g, rows) \<Rightarrow> fill_rows ticket us g)"

text \<open>Every number of a row lies in the band \<open>10 c + 1 .. 10 c + 10\<close> of its column \<open>c\<close>.\<close>

definition row_band :: "int option list \<Rightarrow> bool" where
  "row_band row \<longleftrightarrow> (\<forall>c<length row. \<forall>v. row ! c = Some v \<longrightarrow> 10 * int c + 1 \<le> v \<and> v \<le> 10 * int c + 10)"

subsection \<open>The placement invariant\<close>

text \<open>
  The numbers of a grid row by row, how many rows hold a number in a column, and the
  invariant of phase one after a sorted prefix \<open>t\<close> of the ticket: the grid has the
  right shape, \<^verbatim>\<open>rows\<close> counts each row, the grid holds exactly the numbers of
  \<open>t\<close>, each in its column, the row counts differ by at most one, and in the column of
  the last number placed every occupied row holds at least as many numbers as every free
  row. The last clause is what makes the cyclic search land on a least-filled row.
\<close>

definition grid_values :: "grid \<Rightarrow> int list" where
  "grid_values g = concat (map (List.map_filter id) g)"

definition col_occ :: "grid \<Rightarrow> nat \<Rightarrow> nat" where
  "col_occ g c = length (filter (\<lambda>row. row ! c \<noteq> None) g)"

definition pack_inv :: "int list \<Rightarrow> grid \<Rightarrow> nat list \<Rightarrow> bool" where
  "pack_inv t g rows \<longleftrightarrow>
     length g = 3 \<and> (\<forall>r<3. length (g ! r) = 10) \<and> length rows = 3 \<and>
     (\<forall>r<3. rows ! r = count_nonnull (g ! r)) \<and>
     mset (grid_values g) = mset t \<and>
     (\<forall>r<3. \<forall>c<10. \<forall>x. g ! r ! c = Some x \<longrightarrow> column_of x = int c) \<and>
     (\<forall>c<10. col_occ g c = col_count t (int c)) \<and>
     (\<forall>r<3. \<forall>r'<3. rows ! r \<le> Suc (rows ! r')) \<and>
     (\<forall>a<3. \<forall>b<3. t \<noteq> [] \<longrightarrow> g ! a ! nat (column_of (last t)) \<noteq> None \<longrightarrow>
        g ! b ! nat (column_of (last t)) = None \<longrightarrow> rows ! b \<le> rows ! a)"

definition packed_grid :: "int list \<Rightarrow> grid \<Rightarrow> bool" where
  "packed_grid t g \<longleftrightarrow> length g = 3 \<and>
     list_all (\<lambda>row. length row = 10 \<and> count_nonnull row = 5) g \<and>
     mset (grid_values g) = mset t \<and>
     list_all (\<lambda>r. list_all (\<lambda>c. case g ! r ! c of None \<Rightarrow> True | Some x \<Rightarrow> column_of x = int c)
       [0..<10]) [0..<3]"

subsection \<open>Phase one: the row search and the placement of one number\<close>


lemma free_row_hit: "is_null g s c \<Longrightarrow> free_row g c s = Some s"
  by (subst free_row.simps) simp

lemma free_row_skip: "\<not> is_null g s c \<Longrightarrow> free_row g c s = free_row g c ((s + 1) mod 3)"
  by (subst free_row.simps) simp

lemma free_row_some:
  assumes s: "s < 3" and ex: "\<exists>r<3. is_null g r c"
  shows "\<exists>r. free_row g c s = Some r \<and> r < 3 \<and> is_null g r c \<and> (is_null g s c \<longrightarrow> r = s)"
proof -
  define s1 where "s1 = (s + 1) mod 3"
  define s2 where "s2 = (s1 + 1) mod 3"
  have all: "r = s \<or> r = s1 \<or> r = s2" if "r < 3" for r
  proof -
    have "s = 0 \<or> s = 1 \<or> s = 2" "r = 0 \<or> r = 1 \<or> r = 2" using s that by auto
    then show ?thesis unfolding s1_def s2_def by auto
  qed
  have lt: "s1 < 3" "s2 < 3" unfolding s1_def s2_def by auto
  show ?thesis
  proof (cases "is_null g s c")
    case True
    then show ?thesis using s free_row_hit by blast
  next
    case n0: False
    then have e0: "free_row g c s = free_row g c s1" unfolding s1_def by (rule free_row_skip)
    show ?thesis
    proof (cases "is_null g s1 c")
      case True
      then show ?thesis using n0 e0 lt free_row_hit[of g s1 c] by auto
    next
      case n1: False
      then have e1: "free_row g c s1 = free_row g c s2" unfolding s2_def by (rule free_row_skip)
      have "is_null g s2 c" using ex n0 n1 all by blast
      then show ?thesis using n0 e0 e1 lt free_row_hit[of g s2 c] by auto
    qed
  qed
qed

lemma is_null_iff:
  "length g = 3 \<Longrightarrow> r < 3 \<Longrightarrow> length (g ! r) = 10 \<Longrightarrow> 0 \<le> c \<Longrightarrow> c < 10 \<Longrightarrow>
   is_null g r c \<longleftrightarrow> g ! r ! nat c = None"
  by (simp add: is_null_def js_get_def nat_less_iff)

lemma first_min_row:
  fixes rows :: "nat list"
  assumes "length rows = 3"
  defines "m \<equiv> index_of rows (min_list rows)"
  shows "indexOf rows (min_list rows) = int m \<and> m < 3 \<and> (\<forall>r<3. rows ! m \<le> rows ! r)"
proof -
  have ne: "rows \<noteq> []" using assms(1) by auto
  have mem: "min_list rows \<in> set rows" using ne by (simp add: min_list_Min)
  have le: "min_list rows \<le> rows ! r" if "r < 3" for r
    using ne that assms(1) by (simp add: min_list_Min)
  have "index_of rows (min_list rows) < length rows" using mem by (rule index_of_less)
  then show ?thesis using mem le assms(1) by (simp add: m_def indexOf_member)
qed

lemma grid_values_update:
  "r < length g \<Longrightarrow> c < length (g ! r) \<Longrightarrow> g ! r ! c = None \<Longrightarrow>
   mset (grid_values (g[r := (g ! r)[c := Some x]])) = add_mset x (mset (grid_values g))"
proof (induction g arbitrary: r)
  case Nil
  then show ?case by simp
next
  case (Cons row g)
  then show ?case
    by (cases r) (auto simp: grid_values_def mset_map_filter_update)
qed

lemma col_occ_update:
  "r < length g \<Longrightarrow> c < length (g ! r) \<Longrightarrow> g ! r ! c = None \<Longrightarrow>
   col_occ (g[r := (g ! r)[c := Some x]]) c' = col_occ g c' + (if c' = c then 1 else 0)"
proof (induction g arbitrary: r)
  case Nil
  then show ?case by simp
next
  case (Cons row g)
  then show ?case
    by (cases r) (auto simp: col_occ_def nth_list_update)
qed

lemma size_map_filter_count_nonnull: "length (List.map_filter id row) = count_nonnull row"
  by (induction row) (auto simp: List.map_filter_simps split: option.splits)

lemma col_occ_full:
  assumes "length g = 3" "col_occ g c < 3"
  shows "\<exists>r<3. g ! r ! c = None"
proof (rule ccontr)
  assume "\<not> ?thesis"
  then have "filter (\<lambda>row. row ! c \<noteq> None) g = g"
    using assms(1) by (auto simp: filter_id_conv in_set_conv_nth)
  then show False using assms by (simp add: col_occ_def)
qed

lemma pack_inv_init: "pack_inv [] empty_grid [0, 0, 0]"
  by (auto simp: pack_inv_def empty_grid_def grid_values_def col_occ_def col_count_def
      nth_Cons' List.map_filter_def)

lemma column_of_mono: "x \<le> y \<Longrightarrow> column_of x \<le> column_of y"
  by (simp add: column_of_def zdiv_mono1)

lemma sorted_le_last: "sorted t \<Longrightarrow> y \<in> set t \<Longrightarrow> y \<le> last t"
proof (induction t)
  case Nil
  then show ?case by simp
next
  case (Cons a t)
  then show ?case by (cases t) auto
qed

lemma occupied_same_column:
  assumes inv: "pack_inv t g rows" and srt: "sorted (t @ [x])"
    and x: "1 \<le> x" "x \<le> 99" and a: "a < 3" "g ! a ! nat (column_of x) \<noteq> None"
  shows "t \<noteq> [] \<and> column_of (last t) = column_of x"
proof -
  let ?c = "nat (column_of x)"
  have c: "column_of x = int ?c" "?c < 10" using column_of_range[OF x] by auto
  have "g ! a \<in> set (filter (\<lambda>row. row ! ?c \<noteq> None) g)"
    using inv a by (auto simp: pack_inv_def)
  then have "0 < col_occ g ?c" unfolding col_occ_def by (metis length_pos_if_in_set)
  then have "0 < col_count t (column_of x)" using inv c by (simp add: pack_inv_def)
  then obtain y where y: "y \<in> set t" "column_of y = column_of x"
    by (auto simp: col_count_def filter_empty_conv length_greater_0_conv[symmetric])
  then have ne: "t \<noteq> []" by auto
  have "y \<le> last t" "last t \<le> x"
    using srt y(1) ne sorted_le_last by (auto simp: sorted_append)
  then have "column_of y \<le> column_of (last t)" "column_of (last t) \<le> column_of x"
    using column_of_mono by auto
  then show ?thesis using y(2) ne by simp
qed

lemma pack_invD:
  assumes "pack_inv t g rows"
  shows "length g = 3" "\<forall>r<3. length (g ! r) = 10" "length rows = 3"
    "\<forall>r<3. rows ! r = count_nonnull (g ! r)" "mset (grid_values g) = mset t"
    "\<forall>r<3. \<forall>c<10. \<forall>x. g ! r ! c = Some x \<longrightarrow> column_of x = int c"
    "\<forall>c<10. col_occ g c = col_count t (int c)"
    "\<forall>r<3. \<forall>r'<3. rows ! r \<le> Suc (rows ! r')"
    "\<forall>a<3. \<forall>b<3. t \<noteq> [] \<longrightarrow> g ! a ! nat (column_of (last t)) \<noteq> None \<longrightarrow>
        g ! b ! nat (column_of (last t)) = None \<longrightarrow> rows ! b \<le> rows ! a"
  using assms unfolding pack_inv_def by auto

lemma place_rows_count:
  assumes inv: "pack_inv t g rows" and x: "1 \<le> x" "x \<le> 99"
    and r: "r < 3" "g ! r ! nat (column_of x) = None"
  shows "\<forall>a<3. rows[r := Suc (rows ! r)] ! a = count_nonnull (g[r := (g ! r)[nat (column_of x) := Some x]] ! a)"
proof (intro allI impI)
  fix a :: nat assume a: "a < 3"
  have lg: "length g = 3" "length (g ! r) = 10" "length rows = 3" "rows ! a = count_nonnull (g ! a)"
    "rows ! r = count_nonnull (g ! r)"
    using inv r a unfolding pack_inv_def by auto
  have c: "nat (column_of x) < 10" using column_of_range[OF x] by auto
  show "rows[r := Suc (rows ! r)] ! a = count_nonnull (g[r := (g ! r)[nat (column_of x) := Some x]] ! a)"
    using lg c r by (cases "a = r") (simp_all add: count_nonnull_update_None)
qed

lemma place_mset:
  assumes inv: "pack_inv t g rows" and x: "1 \<le> x" "x \<le> 99"
    and r: "r < 3" "g ! r ! nat (column_of x) = None"
  shows "mset (grid_values (g[r := (g ! r)[nat (column_of x) := Some x]])) = mset (t @ [x])"
proof -
  have lg: "length g = 3" "length (g ! r) = 10" "mset (grid_values g) = mset t"
    using inv r unfolding pack_inv_def by auto
  have c: "nat (column_of x) < 10" using column_of_range[OF x] by auto
  show ?thesis using grid_values_update[of r g "nat (column_of x)" x] lg r c by simp
qed

lemma place_col_occ:
  assumes inv: "pack_inv t g rows" and x: "1 \<le> x" "x \<le> 99"
    and r: "r < 3" "g ! r ! nat (column_of x) = None"
  shows "\<forall>c'<10. col_occ (g[r := (g ! r)[nat (column_of x) := Some x]]) c' = col_count (t @ [x]) (int c')"
proof (intro allI impI)
  fix c' :: nat assume c': "c' < 10"
  have lg: "length g = 3" "length (g ! r) = 10" "col_occ g c' = col_count t (int c')"
    using inv r c' unfolding pack_inv_def by auto
  have c: "column_of x = int (nat (column_of x))" "nat (column_of x) < 10" using column_of_range[OF x] by auto
  show "col_occ (g[r := (g ! r)[nat (column_of x) := Some x]]) c' = col_count (t @ [x]) (int c')"
    using col_occ_update[of r g "nat (column_of x)" x c'] lg r c by auto
qed

lemma place_cells:
  assumes inv: "pack_inv t g rows" and x: "1 \<le> x" "x \<le> 99"
    and r: "r < 3" "g ! r ! nat (column_of x) = None"
  shows "\<forall>a<3. \<forall>c'<10. \<forall>y. g[r := (g ! r)[nat (column_of x) := Some x]] ! a ! c' = Some y \<longrightarrow> column_of y = int c'"
proof (intro allI impI)
  fix a c' :: nat and y assume a: "a < 3" and c': "c' < 10"
    and y: "g[r := (g ! r)[nat (column_of x) := Some x]] ! a ! c' = Some y"
  have lg: "length g = 3" "length (g ! r) = 10"
    and old: "\<forall>r<3. \<forall>c<10. \<forall>x. g ! r ! c = Some x \<longrightarrow> column_of x = int c"
    using pack_invD[OF inv] r by auto
  have c: "0 \<le> column_of x" "nat (column_of x) < 10" using column_of_range[OF x] by auto
  show "column_of y = int c'"
  proof (cases "a = r \<and> c' = nat (column_of x)")
    case True
    then show ?thesis using y lg c r by simp
  next
    case False
    then have "g ! a ! c' = Some y" using y lg r by (auto simp: nth_list_update split: if_splits)
    then show ?thesis using old a c' by blast
  qed
qed

lemma place_balanced:
  assumes inv: "pack_inv t g rows" and x: "1 \<le> x" "x \<le> 99"
    and r: "r < 3" "g ! r ! nat (column_of x) = None"
    and minr: "\<forall>a<3. rows ! r \<le> rows ! a"
  shows "\<forall>a<3. \<forall>b<3. rows[r := Suc (rows ! r)] ! a \<le> Suc (rows[r := Suc (rows ! r)] ! b)"
proof (intro allI impI)
  fix a b :: nat assume a: "a < 3" and b: "b < 3"
  have lr: "length rows = 3" and bal: "\<forall>a<3. \<forall>b<3. rows ! a \<le> Suc (rows ! b)"
    using pack_invD[OF inv] by auto
  have "rows ! a \<le> Suc (rows ! r)" "rows ! r \<le> rows ! b" using bal minr a b r by auto
  then show "rows[r := Suc (rows ! r)] ! a \<le> Suc (rows[r := Suc (rows ! r)] ! b)"
    using lr r a b by (cases "a = r"; cases "b = r") auto
qed

lemma place_last_column:
  assumes inv: "pack_inv t g rows" and srt: "sorted (t @ [x])" and x: "1 \<le> x" "x \<le> 99"
    and r: "r < 3" "g ! r ! nat (column_of x) = None"
  shows "\<forall>a<3. \<forall>b<3. t @ [x] \<noteq> [] \<longrightarrow>
     g[r := (g ! r)[nat (column_of x) := Some x]] ! a ! nat (column_of (last (t @ [x]))) \<noteq> None \<longrightarrow>
     g[r := (g ! r)[nat (column_of x) := Some x]] ! b ! nat (column_of (last (t @ [x]))) = None \<longrightarrow>
     rows[r := Suc (rows ! r)] ! b \<le> rows[r := Suc (rows ! r)] ! a"
proof (intro allI impI)
  fix a b :: nat
  let ?c = "nat (column_of x)"
  assume a: "a < 3" and b: "b < 3"
    and occ: "g[r := (g ! r)[?c := Some x]] ! a ! nat (column_of (last (t @ [x]))) \<noteq> None"
    and free: "g[r := (g ! r)[?c := Some x]] ! b ! nat (column_of (last (t @ [x]))) = None"
  have lg: "length g = 3" "length (g ! r) = 10" "length rows = 3"
    and bal: "\<forall>a<3. \<forall>b<3. rows ! a \<le> Suc (rows ! b)"
    and old: "\<forall>a<3. \<forall>b<3. t \<noteq> [] \<longrightarrow> g ! a ! nat (column_of (last t)) \<noteq> None \<longrightarrow>
        g ! b ! nat (column_of (last t)) = None \<longrightarrow> rows ! b \<le> rows ! a"
    using pack_invD[OF inv] r by auto
  have c: "?c < 10" using column_of_range[OF x] by auto
  have bfree: "b \<noteq> r" "g ! b ! ?c = None"
    using free r lg c by (auto simp: nth_list_update split: if_splits)
  show "rows[r := Suc (rows ! r)] ! b \<le> rows[r := Suc (rows ! r)] ! a"
  proof (cases "a = r")
    case True
    then show ?thesis using bal bfree a b r lg by auto
  next
    case False
    then have aocc: "g ! a ! ?c \<noteq> None" using occ lg by simp
    have same: "t \<noteq> [] \<and> column_of (last t) = column_of x"
      using occupied_same_column[OF inv srt x a aocc] .
    then have "rows ! b \<le> rows ! a" using old a b aocc bfree by auto
    then show ?thesis using False bfree lg by simp
  qed
qed

lemma pack_inv_place:
  assumes inv: "pack_inv t g rows" and srt: "sorted (t @ [x])"
    and x: "1 \<le> x" "x \<le> 99"
    and r: "r < 3" "g ! r ! nat (column_of x) = None"
    and minr: "\<forall>a<3. rows ! r \<le> rows ! a"
  shows "pack_inv (t @ [x]) (g[r := (g ! r)[nat (column_of x) := Some x]])
           (rows[r := Suc (rows ! r)])"
proof -
  have lg: "length g = 3" "\<forall>a<3. length (g ! a) = 10" "length rows = 3"
    using pack_invD[OF inv] by auto
  have len: "length (g[r := (g ! r)[nat (column_of x) := Some x]]) = 3"
    "\<forall>a<3. length (g[r := (g ! r)[nat (column_of x) := Some x]] ! a) = 10"
    "length (rows[r := Suc (rows ! r)]) = 3"
    using lg r by (auto simp: nth_list_update)
  show ?thesis
    unfolding pack_inv_def
    using len place_rows_count[OF inv x r] place_mset[OF inv x r] place_cells[OF inv x r]
      place_col_occ[OF inv x r] place_balanced[OF inv x r minr] place_last_column[OF inv srt x r]
    by (intro conjI) assumption+
qed

lemma place_num_step:
  assumes inv: "pack_inv t g rows" and srt: "sorted (t @ [x])"
    and x: "1 \<le> x" "x \<le> 99" and cnt: "col_count t (column_of x) < 3"
  shows "\<exists>g' rows'. place_num (g, rows) x = Some (g', rows') \<and> pack_inv (t @ [x]) g' rows'"
proof -
  let ?c = "nat (column_of x)"
  have c: "0 \<le> column_of x" "column_of x < 10" "int ?c = column_of x"
    using column_of_range[OF x] by auto
  have lg: "length g = 3" "\<forall>a<3. length (g ! a) = 10" "length rows = 3"
    and occ: "col_occ g ?c = col_count t (int ?c)"
    and last_col: "\<forall>a<3. \<forall>b<3. t \<noteq> [] \<longrightarrow> g ! a ! nat (column_of (last t)) \<noteq> None \<longrightarrow>
        g ! b ! nat (column_of (last t)) = None \<longrightarrow> rows ! b \<le> rows ! a"
    using pack_invD[OF inv] c by auto
  define m where "m = index_of rows (min_list rows)"
  have m: "indexOf rows (min_list rows) = int m" "m < 3" "\<forall>a<3. rows ! m \<le> rows ! a"
    using first_min_row[OF lg(3)] unfolding m_def by auto
  have null_iff: "is_null g a (column_of x) \<longleftrightarrow> g ! a ! ?c = None" if "a < 3" for a
    using is_null_iff[of g a "column_of x"] lg that c by auto
  have "col_occ g ?c < 3" using occ cnt c by simp
  then obtain r0 where "r0 < 3" "g ! r0 ! ?c = None" using col_occ_full lg by blast
  then have "\<exists>r<3. is_null g r (column_of x)" using null_iff by blast
  then obtain r where fr: "free_row g (column_of x) m = Some r" and r: "r < 3"
    and rn: "is_null g r (column_of x)" and rm: "is_null g m (column_of x) \<longrightarrow> r = m"
    using free_row_some[OF m(2)] by blast
  have rfree: "g ! r ! ?c = None" using rn null_iff r by blast
  have minr: "\<forall>a<3. rows ! r \<le> rows ! a"
  proof (cases "g ! m ! ?c = None")
    case True
    then show ?thesis using rm null_iff m by auto
  next
    case False
    have "t \<noteq> [] \<and> column_of (last t) = column_of x"
      using occupied_same_column[OF inv srt x m(2) False] .
    then have "rows ! r \<le> rows ! m" using last_col m(2) r False rfree by auto
    then show ?thesis using m(3) by (meson order_trans)
  qed
  have "place_num (g, rows) x = Some (g[r := (g ! r)[?c := Some x]], rows[r := Suc (rows ! r)])"
    using m(1) fr by (simp add: place_num_def Let_def)
  then show ?thesis using pack_inv_place[OF inv srt x r rfree minr] by blast
qed

lemma col_count_append2: "col_count (xs @ ys) c = col_count xs c + col_count ys c"
  by (simp add: col_count_def)

lemma place_all_inv:
  "pack_inv pre g rows \<Longrightarrow> sorted (pre @ rest) \<Longrightarrow> \<forall>y\<in>set rest. 1 \<le> y \<and> y \<le> 99 \<Longrightarrow>
   \<forall>y\<in>set rest. col_count (pre @ rest) (column_of y) \<le> 3 \<Longrightarrow>
   \<exists>g' rows'. place_all (g, rows) rest = Some (g', rows') \<and> pack_inv (pre @ rest) g' rows'"
proof (induction rest arbitrary: pre g rows)
  case Nil
  then show ?case by simp
next
  case (Cons y rest)
  have y: "1 \<le> y" "y \<le> 99" using Cons.prems(3) by auto
  have "1 \<le> col_count (y # rest) (column_of y)" by (simp add: col_count_def)
  then have cnt: "col_count pre (column_of y) < 3"
    using Cons.prems(4) by (simp add: col_count_append2)
  have srt: "sorted (pre @ [y])" using Cons.prems(2) by (simp add: sorted_append)
  obtain g1 rows1 where st: "place_num (g, rows) y = Some (g1, rows1)" and inv1: "pack_inv (pre @ [y]) g1 rows1"
    using place_num_step[OF Cons.prems(1) srt y cnt] by blast
  have "\<exists>g' rows'. place_all (g1, rows1) rest = Some (g', rows') \<and> pack_inv ((pre @ [y]) @ rest) g' rows'"
    using Cons.IH[OF inv1] Cons.prems(2-4) by simp
  then show ?case using st by simp
qed

lemma three_rows: "length g = 3 \<Longrightarrow> \<exists>a b c. g = [a, b, c]"
  by (auto simp: numeral_3_eq_3 length_Suc_conv)

lemma pack_inv_full:
  assumes inv: "pack_inv t g rows" and len: "length t = 15"
  shows "\<forall>r<3. rows ! r = 5"
proof -
  have lg: "length g = 3" and cnt: "\<forall>r<3. rows ! r = count_nonnull (g ! r)"
    and ms: "mset (grid_values g) = mset t" and bal: "\<forall>r<3. \<forall>r'<3. rows ! r \<le> Suc (rows ! r')"
    using pack_invD[OF inv] by auto
  have "length (grid_values g) = 15" using ms len by (metis size_mset)
  moreover have "length (grid_values g) = count_nonnull (g ! 0) + count_nonnull (g ! 1) + count_nonnull (g ! 2)"
    using three_rows[OF lg] by (auto simp: grid_values_def size_map_filter_count_nonnull)
  ultimately have sum: "rows ! 0 + rows ! 1 + rows ! 2 = 15" using cnt by simp
  have "rows ! 0 \<le> Suc (rows ! 1)" "rows ! 1 \<le> Suc (rows ! 0)" "rows ! 0 \<le> Suc (rows ! 2)"
    "rows ! 2 \<le> Suc (rows ! 0)" "rows ! 1 \<le> Suc (rows ! 2)" "rows ! 2 \<le> Suc (rows ! 1)"
    using bal by auto
  then have "rows ! 0 = 5" "rows ! 1 = 5" "rows ! 2 = 5" using sum by arith+
  moreover have "r = 0 \<or> r = 1 \<or> r = 2" if "r < 3" for r :: nat using that by auto
  ultimately show ?thesis by auto
qed

lemma fill_row_full: "5 \<le> k \<Longrightarrow> fill_row t us row k = Some (row, us)"
  by (cases "(t, us, row, k)" rule: fill_row.cases) auto

lemma fill_rows_full: "\<forall>row\<in>set g. 5 \<le> count_nonnull row \<Longrightarrow> fill_rows t us g = Some (g, us)"
  by (induction g arbitrary: us) (auto simp: fill_row_full)


subsection \<open>The row search on a full column\<close>

lemma free_row_sound: "free_row g c s = Some r \<Longrightarrow> is_null g r c"
  by (rule free_row.raw_induct[where P = "\<lambda>g c s r. is_null g r c", rotated]) (auto split: if_splits)

lemma place_all_append:
  "place_all st (xs @ ys) = (case place_all st xs of None \<Rightarrow> None | Some st' \<Rightarrow> place_all st' ys)"
  by (induction st xs rule: place_all.induct) (auto split: option.splits)

lemma is_null_bound: "is_null g r c \<Longrightarrow> r < length g"
  by (simp add: is_null_def js_get_def split: if_splits)

text \<open>
  C20. The \<^verbatim>\<open>while\<close> of lines 42--44 searches the rows cyclically from the
  least-filled one: on a 3-row grid it returns whenever the column has a free cell and runs
  forever (the value \<open>None\<close> of the \<^theory_text>\<open>partial_function\<close>) exactly when all
  three cells of the column are taken, so \<^verbatim>\<open>organizeTicket\<close> hangs on any ticket
  with four numbers in one column; only the column guard of \<^verbatim>\<open>generateLottoTicket\<close>
  keeps generated tickets away from it.
\<close>

theorem free_row_diverges:
  assumes "length g = 3" "s < 3"
  shows "free_row g c s = None \<longleftrightarrow> (\<forall>r<3. \<not> is_null g r c)"
proof
  assume n: "free_row g c s = None"
  show "\<forall>r<3. \<not> is_null g r c"
    using free_row_some[OF assms(2), of g c] n by force
next
  assume none: "\<forall>r<3. \<not> is_null g r c"
  show "free_row g c s = None"
  proof (rule ccontr)
    assume "free_row g c s \<noteq> None"
    then obtain r where "free_row g c s = Some r" by auto
    then have r: "is_null g r c" by (rule free_row_sound)
    then have "r < 3" using is_null_bound[of g r c] assms(1) by simp
    then show False using none r by blast
  qed
qed

subsection \<open>The column band of every placed number\<close>

lemma row_band_update:
  "row_band row \<Longrightarrow> c < length row \<Longrightarrow> 10 * int c + 1 \<le> v \<Longrightarrow> v \<le> 10 * int c + 10 \<Longrightarrow>
   row_band (row[c := Some v])"
  by (auto simp: row_band_def nth_list_update split: if_splits)

lemma empty_columns_less: "i \<in> set (empty_columns row) \<Longrightarrow> i < length row"
  by (simp add: empty_columns_def)

lemma fill_row_band:
  "fill_row t us row k = Some (row', us') \<Longrightarrow> valid_rng us \<Longrightarrow> row_band row \<Longrightarrow>
   row_band row' \<and> valid_rng us'"
proof (induction t us row k rule: fill_row.induct)
  case (3 t u1 u2 us row k)
  show ?case
  proof (cases "k < 5 \<and> empty_columns row \<noteq> []")
    case True
    let ?e = "empty_columns row"
    let ?col = "?e ! random_index u1 (length ?e)"
    let ?n = "generateRandomNumber (int ?col * 10 + 1) (int ?col * 10 + 10) u2"
    have "random_index u1 (length ?e) < length ?e"
      using "3.prems"(2) True by (intro random_index_less) auto
    then have col: "?col < length row" using empty_columns_less nth_mem by blast
    have n: "10 * int ?col + 1 \<le> ?n" "?n \<le> 10 * int ?col + 10"
      using "3.prems"(2) generateRandomNumber_ge[of "int ?col * 10 + 1" "int ?col * 10 + 10" u2]
        generateRandomNumber_le[of "int ?col * 10 + 1" "int ?col * 10 + 10" u2] by (simp_all add: mult.commute)
    have b: "row_band (row[?col := Some ?n])" using row_band_update[OF "3.prems"(3) col n] .
    show ?thesis
      using "3.IH"(2,3) "3.prems" True b by (auto simp: Let_def split: if_splits)
  next
    case False
    then show ?thesis using "3.IH"(1) "3.prems" by (auto simp: Let_def split: if_splits)
  qed
qed (auto split: if_splits)

lemma fill_rows_band:
  "fill_rows t us g = Some (g', us') \<Longrightarrow> valid_rng us \<Longrightarrow> list_all row_band g \<Longrightarrow> list_all row_band g'"
proof (induction t us g arbitrary: g' us' rule: fill_rows.induct)
  case (2 t us row rows)
  obtain row' us1 rows' where f: "fill_row t us row (count_nonnull row) = Some (row', us1)"
    "fill_rows t us1 rows = Some (rows', us')" "g' = row' # rows'"
    using "2.prems"(1) by (auto split: option.splits)
  have "row_band row' \<and> valid_rng us1" using fill_row_band[OF f(1) "2.prems"(2)] "2.prems"(3) by simp
  then show ?case using "2.IH"[OF f(1) refl f(2)] "2.prems"(3) f(3) by simp
qed simp

lemma column_of_band: "1 \<le> x \<Longrightarrow> 10 * int (nat (column_of x)) + 1 \<le> x \<and> x \<le> 10 * int (nat (column_of x)) + 10"
  by (simp add: column_of_def) linarith

lemma place_num_band:
  assumes p: "place_num (g, rows) num = Some (g', rows')" and n: "1 \<le> num"
    and b: "list_all row_band g"
  shows "list_all row_band g'"
proof -
  obtain r where r: "free_row g (column_of num) (nat (indexOf rows (min_list rows))) = Some r"
    and g': "g' = g[r := (g ! r)[nat (column_of num) := Some num]]"
    using p by (auto simp: place_num_def Let_def split: if_splits option.splits)
  have nl: "is_null g r (column_of num)" using free_row_sound[OF r] .
  then have rl: "r < length g" by (rule is_null_bound)
  have cl: "nat (column_of num) < length (g ! r)"
    using nl rl n by (auto simp: is_null_def js_get_def column_of_def split: if_splits)
  have "row_band (g ! r)" using b rl by (simp add: list_all_length)
  then have "row_band ((g ! r)[nat (column_of num) := Some num])"
    using row_band_update cl column_of_band[OF n] by blast
  then show ?thesis using b g' rl by (auto simp: list_all_length nth_list_update)
qed

lemma place_all_band:
  "place_all st ts = Some st' \<Longrightarrow> \<forall>x\<in>set ts. 1 \<le> x \<Longrightarrow> list_all row_band (fst st) \<Longrightarrow>
   list_all row_band (fst st')"
proof (induction st ts rule: place_all.induct)
  case (2 st num nums)
  obtain st1 where s1: "place_num st num = Some st1" "place_all st1 nums = Some st'"
    using "2.prems"(1) by (auto split: option.splits)
  have "list_all row_band (fst st1)"
    using place_num_band[of "fst st" "snd st" num "fst st1" "snd st1"] s1(1) "2.prems"(2,3) by simp
  then show ?case using "2.IH"[OF s1(1) s1(2)] "2.prems"(2) by simp
qed simp

subsection \<open>The packer on generated tickets\<close>

lemma organizeTicket_packs:
  assumes t: "valid_ticket t"
  shows "\<exists>g. organizeTicket t us = Some (g, us) \<and> packed_grid t g"
proof -
  have range: "\<forall>y\<in>set t. 1 \<le> y \<and> y \<le> 99" and srt: "sorted t" and len: "length t = 15"
    using t by (auto simp: valid_ticket_def list_all_iff)
  have "col_count t (column_of y) \<le> 3" if "y \<in> set t" for y
  proof -
    have "0 \<le> column_of y \<and> column_of y < 10" using column_of_range range that by auto
    then have "column_of y \<in> set [0..9]" by auto
    then show ?thesis using t by (auto simp: valid_ticket_def list_all_iff)
  qed
  then obtain g rows where pa: "place_all (empty_grid, [0, 0, 0]) t = Some (g, rows)"
    and inv: "pack_inv t g rows"
    using place_all_inv[OF pack_inv_init, of t] srt range by auto
  have lg: "length g = 3" "\<forall>r<3. length (g ! r) = 10" "\<forall>r<3. rows ! r = count_nonnull (g ! r)"
    and ms: "mset (grid_values g) = mset t"
    and cells: "\<forall>r<3. \<forall>c<10. \<forall>x. g ! r ! c = Some x \<longrightarrow> column_of x = int c"
    using pack_invD[OF inv] by auto
  have five: "\<forall>r<3. count_nonnull (g ! r) = 5" using pack_inv_full[OF inv len] lg(3) by auto
  have rows_ok: "\<forall>row\<in>set g. length row = 10 \<and> count_nonnull row = 5"
    using lg five by (auto simp: in_set_conv_nth)
  then have "organizeTicket t us = Some (g, us)"
    using pa fill_rows_full[of g t us] by (simp add: organizeTicket_def)
  moreover have "packed_grid t g"
    using lg(1) rows_ok ms cells by (auto simp: packed_grid_def list_all_iff split: option.splits)
  ultimately show ?thesis by blast
qed

text \<open>
  C2. \<^verbatim>\<open>organizeTicket\<close> on a valid ticket returns, consumes no random value, and
  yields a 3 by 10 grid with exactly five numbers in every row that holds exactly the
  ticket's numbers, each once and in its own column. Phase one already leaves five numbers in
  every row, so the filler loop of lines 50--62 never runs on a ticket of
  \<^verbatim>\<open>generateLottoTicket\<close>.
\<close>

theorem organizeTicket_valid:
  assumes "valid_ticket t"
  shows "\<exists>g. organizeTicket t us = Some (g, us) \<and> packed_grid t g \<and>
           distinct (grid_values g) \<and> set (grid_values g) = set t"
proof -
  obtain g where g: "organizeTicket t us = Some (g, us)" "packed_grid t g"
    using organizeTicket_packs[OF assms] by blast
  have ms: "mset (grid_values g) = mset t" and d: "distinct t"
    using g(2) assms by (auto simp: packed_grid_def valid_ticket_def)
  then have "distinct (grid_values g)" "set (grid_values g) = set t"
    by (metis mset_eq_imp_distinct_iff, metis set_mset_mset)
  then show ?thesis using g by blast
qed

theorem organizeTicket_valid_witness:
  "valid_ticket [1,2,5,11,12,13,21,22,23,31,32,33,41,42,43] \<and>
   organizeTicket [1,2,5,11,12,13,21,22,23,31,32,33,41,42,43] [] =
     Some ([[Some 1, Some 11, Some 21, Some 31, Some 41, None, None, None, None, None],
            [Some 2, Some 12, Some 22, Some 32, Some 42, None, None, None, None, None],
            [Some 5, Some 13, Some 23, Some 33, Some 43, None, None, None, None, None]], []) \<and>
   packed_grid [1,2,5,11,12,13,21,22,23,31,32,33,41,42,43]
     [[Some 1, Some 11, Some 21, Some 31, Some 41, None, None, None, None, None],
      [Some 2, Some 12, Some 22, Some 32, Some 42, None, None, None, None, None],
      [Some 5, Some 13, Some 23, Some 33, Some 43, None, None, None, None, None]]"
proof -
  have v: "valid_ticket [1,2,5,11,12,13,21,22,23,31,32,33,41,42,43]"
    by (simp add: valid_ticket_def col_count_def column_of_def upto.simps)
  obtain g where g: "organizeTicket [1,2,5,11,12,13,21,22,23,31,32,33,41,42,43] [] = Some (g, [])"
    and p: "packed_grid [1,2,5,11,12,13,21,22,23,31,32,33,41,42,43] g"
    using organizeTicket_valid[OF v, of "[]"] by blast
  have e: "organizeTicket [1,2,5,11,12,13,21,22,23,31,32,33,41,42,43] [] =
     Some ([[Some 1, Some 11, Some 21, Some 31, Some 41, None, None, None, None, None],
            [Some 2, Some 12, Some 22, Some 32, Some 42, None, None, None, None, None],
            [Some 5, Some 13, Some 23, Some 33, Some 43, None, None, None, None, None]], [])"
    by code_simp
  show ?thesis using v g p e by simp
qed

text \<open>
  C24. Every number \<^verbatim>\<open>organizeTicket\<close> places, by phase one or by the filler, lies in
  the band \<open>10 c + 1 .. 10 c + 10\<close> of its column \<open>c\<close> (line 13 and line 55), for
  every ticket of positive numbers and every admissible stream. For column 9 the band is
  \<open>91 .. 100\<close>, so the filler can place 100, a number outside \<open>[1, 99]\<close> that the draw
  never produces; the witness is a 14-number ticket whose third row the filler completes
  with 100.
\<close>

theorem organizeTicket_column_band:
  assumes v: "valid_rng us" and t: "\<forall>x\<in>set t. 1 \<le> x" and o: "organizeTicket t us = Some (g, us')"
  shows "\<forall>r<length g. \<forall>c<length (g ! r). \<forall>v. g ! r ! c = Some v \<longrightarrow>
           10 * int c + 1 \<le> v \<and> v \<le> 10 * int c + 10"
proof -
  obtain g1 rows where p: "place_all (empty_grid, [0, 0, 0]) t = Some (g1, rows)"
    and f: "fill_rows t us g1 = Some (g, us')"
    using o by (auto simp: organizeTicket_def split: option.splits)
  have "list_all row_band empty_grid" by (auto simp: empty_grid_def row_band_def list_all_iff)
  then have "list_all row_band g1" using place_all_band[OF p t] by simp
  then have "list_all row_band g" using fill_rows_band[OF f v] by simp
  then show ?thesis by (auto simp: list_all_length row_band_def)
qed

theorem organizeTicket_column_band_witness:
  "valid_rng [5 / 6, 99 / 100] \<and> list_all (\<lambda>x. 1 \<le> x) [1,2,5,11,12,13,21,22,23,31,32,33,41,42 :: int] \<and>
   organizeTicket [1,2,5,11,12,13,21,22,23,31,32,33,41,42] [5 / 6, 99 / 100] =
     Some ([[Some 1, Some 11, Some 21, Some 31, Some 41, None, None, None, None, None],
            [Some 2, Some 12, Some 22, Some 32, Some 42, None, None, None, None, None],
            [Some 5, Some 13, Some 23, Some 33, None, None, None, None, None, Some 100]], []) \<and>
   10 * int 9 + 1 \<le> (100::int) \<and> (100::int) \<le> 10 * int 9 + 10 \<and> \<not> (100::int) \<le> 99"
proof -
  let ?g = "[[Some 1, Some 11, Some 21, Some 31, Some 41, None, None, None, None, None],
             [Some 2, Some 12, Some 22, Some 32, Some 42, None, None, None, None, None],
             [Some 5, Some 13, Some 23, Some 33, None, None, None, None, None, Some (100::int)]]"
  have v: "valid_rng [5 / 6, 99 / 100]" by simp
  have t: "\<forall>x\<in>set [1,2,5,11,12,13,21,22,23,31,32,33,41,42 :: int]. 1 \<le> x" by simp
  have o: "organizeTicket [1,2,5,11,12,13,21,22,23,31,32,33,41,42] [5 / 6, 99 / 100] = Some (?g, [])"
    by code_simp
  have "10 * int 9 + 1 \<le> (100::int) \<and> (100::int) \<le> 10 * int 9 + 10"
    using organizeTicket_column_band[OF v t o] by (simp add: numeral_eq_Suc)
  then show ?thesis using v t o by simp
qed


text \<open>The divergence at the ticket \<open>[1, 2, 3, 4]\<close>: after 1, 2 and 3 fill column 0, the search for
  a row for 4 never ends, and so does \<^verbatim>\<open>organizeTicket\<close>.\<close>

theorem free_row_diverges_witness:
  "length [[Some 1, None, None, None, None, None, None, None, None, None],
           [Some 2, None, None, None, None, None, None, None, None, None],
           [Some (3::int), None, None, None, None, None, None, None, None, None]] = 3 \<and>
   free_row [[Some 1, None, None, None, None, None, None, None, None, None],
             [Some 2, None, None, None, None, None, None, None, None, None],
             [Some 3, None, None, None, None, None, None, None, None, None]] 0 0 = None \<and>
   organizeTicket [1, 2, 3, 4] [] = None"
proof -
  let ?g = "[[Some 1, None, None, None, None, None, None, None, None, None],
             [Some 2, None, None, None, None, None, None, None, None, None],
             [Some (3::int), None, None, None, None, None, None, None, None, None]]"
  have full: "\<forall>r<3. \<not> is_null ?g r 0"
    by (auto simp: is_null_def js_get_def less_Suc_eq numeral_3_eq_3)
  have n: "free_row ?g 0 0 = None" using free_row_diverges[of ?g 0 0] full by simp
  have p3: "place_all (empty_grid, [0, 0, 0]) [1, 2, 3] = Some (?g, [1, 1, 1])"
    by code_simp
  have "place_num (?g, [1, 1, 1]) 4 = None"
    using n by (simp add: place_num_def column_of_def indexOf_def)
  then have "place_all (empty_grid, [0, 0, 0]) ([1, 2, 3] @ [4]) = None"
    using p3 by (simp only: place_all_append) simp
  then show ?thesis using n by (simp add: organizeTicket_def)
qed

end
