(* ===== verification/Draw_Engine.thy ===== *)
theory Draw_Engine
  imports Random_Source
begin

text \<open>
  The draw pool: \<^verbatim>\<open>generateNumbersList\<close> (\<^verbatim>\<open>src/script.js\<close> lines 103--109) and
  the Fisher--Yates shuffle \<^verbatim>\<open>shuffleArray\<close> (lines 112--117), which consumes one
  random value per swap. \<^verbatim>\<open>drawItem\<close> shuffles the pool and pops its last element;
  the lemmas here show that the shuffle permutes the pool and that the popped element is
  \<^verbatim>\<open>items[Math.floor(u * items.length)]\<close> for the first random value \<open>u\<close>: one
  uniform pick, the rest of the shuffle only reorders what stays in the pool.
\<close>

definition generateNumbersList :: "int list" where
  "generateNumbersList = [1..99]"

text \<open>The loop of \<^verbatim>\<open>shuffleArray\<close>; \<open>i\<close> is the loop variable, running down to 1.\<close>

fun shuffle_loop :: "rng \<Rightarrow> nat \<Rightarrow> 'a list \<Rightarrow> ('a list \<times> rng) option" where
  "shuffle_loop us 0 xs = Some (xs, us)"
| "shuffle_loop [] (Suc k) xs = None"
| "shuffle_loop (u # us) (Suc k) xs =
     (let i = Suc k; j = random_index u (i + 1)
      in shuffle_loop us k (xs[i := xs ! j, j := xs ! i]))"

text \<open>\<^verbatim>\<open>for (let i = array.length - 1; i > 0; i--)\<close>: with \<open>nat\<close> subtraction the empty
  array starts at 0 instead of -1; in both cases the body never runs.\<close>

definition shuffleArray :: "rng \<Rightarrow> 'a list \<Rightarrow> ('a list \<times> rng) option" where
  "shuffleArray us xs = shuffle_loop us (length xs - 1) xs"

subsection \<open>The shuffle permutes\<close>

lemma shuffle_loop_perm:
  "shuffle_loop us k xs = Some (ys, rest) \<Longrightarrow> valid_rng us \<Longrightarrow> k < length xs \<Longrightarrow>
   mset ys = mset xs \<and> (\<exists>pre. us = pre @ rest \<and> length pre = k)"
proof (induction us k xs rule: shuffle_loop.induct)
  case (1 us xs)
  then show ?case by simp
next
  case (2 k xs)
  then show ?case by simp
next
  case (3 u us k xs)
  let ?j = "random_index u (Suc k + 1)"
  have j: "?j < length xs" using "3.prems" random_index_less[of u "Suc k + 1"] by simp
  have "shuffle_loop us k (xs[Suc k := xs ! ?j, ?j := xs ! Suc k]) = Some (ys, rest)"
    using "3.prems"(1) by (simp add: Let_def)
  then have "mset ys = mset (xs[Suc k := xs ! ?j, ?j := xs ! Suc k]) \<and> (\<exists>pre. us = pre @ rest \<and> length pre = k)"
    using "3.IH" "3.prems"(2,3) by (simp add: Let_def)
  moreover have "mset (xs[Suc k := xs ! ?j, ?j := xs ! Suc k]) = mset xs"
    using j "3.prems"(3) by (simp add: mset_swap)
  ultimately show ?case by (metis append_Cons length_Cons)
qed

lemma shuffle_perm_shuffleArray:
  "shuffleArray us xs = Some (ys, rest) \<Longrightarrow> valid_rng us \<Longrightarrow> mset ys = mset xs"
proof (cases "xs = []")
  case True
  then show "shuffleArray us xs = Some (ys, rest) \<Longrightarrow> valid_rng us \<Longrightarrow> mset ys = mset xs"
    by (simp add: shuffleArray_def)
next
  case False
  then show "shuffleArray us xs = Some (ys, rest) \<Longrightarrow> valid_rng us \<Longrightarrow> mset ys = mset xs"
    using shuffle_loop_perm[of us "length xs - 1" xs ys rest] by (simp add: shuffleArray_def)
qed

lemma shuffle_loop_length:
  "shuffle_loop us k xs = Some (ys, rest) \<Longrightarrow> length ys = length xs"
  by (induction us k xs rule: shuffle_loop.induct) (auto simp: Let_def)

lemma shuffle_loop_above:
  "shuffle_loop us k xs = Some (ys, rest) \<Longrightarrow> valid_rng us \<Longrightarrow> k < n \<Longrightarrow> ys ! n = xs ! n"
proof (induction us k xs rule: shuffle_loop.induct)
  case (3 u us k xs)
  let ?j = "random_index u (Suc k + 1)"
  have j: "?j < Suc k + 1" using "3.prems"(2) random_index_less[of u "Suc k + 1"] by simp
  have "ys ! n = (xs[Suc k := xs ! ?j, ?j := xs ! Suc k]) ! n"
    using "3.IH" "3.prems" by (simp add: Let_def)
  also have "\<dots> = xs ! n" using j "3.prems"(3) by (simp add: nth_list_update)
  finally show ?case .
qed auto

lemma shuffle_loop_enough:
  "length us \<ge> k \<Longrightarrow> \<exists>ys rest. shuffle_loop us k xs = Some (ys, rest)"
  by (induction us k xs rule: shuffle_loop.induct) (auto simp: Let_def)

subsection \<open>Shuffle then pop is one uniform pick\<close>

lemma shuffleArray_last:
  assumes n: "2 \<le> length xs" and v: "valid_rng (u # us)"
    and sh: "shuffleArray (u # us) xs = Some (ys, rest)"
  shows "last ys = xs ! random_index u (length xs) \<and> mset ys = mset xs \<and> length ys = length xs"
proof -
  obtain k where k: "length xs - 1 = Suc k" using n by (cases "length xs - 1") auto
  let ?j = "random_index u (length xs)"
  let ?xs' = "xs[Suc k := xs ! ?j, ?j := xs ! Suc k]"
  have j: "?j < length xs" using v n random_index_less[of u "length xs"] by fastforce
  have eq: "Suc k + 1 = length xs" using k n by simp
  have loop: "shuffle_loop us k ?xs' = Some (ys, rest)"
    using sh k eq by (simp add: shuffleArray_def Let_def)
  have len: "length ys = length xs" using shuffle_loop_length[OF loop] by simp
  have "ys ! Suc k = ?xs' ! Suc k" using shuffle_loop_above[OF loop] v by simp
  also have "\<dots> = xs ! ?j" using j eq by (simp add: nth_list_update)
  moreover have "ys \<noteq> []" "length ys - 1 = Suc k" using len eq by auto
  ultimately have "last ys = xs ! ?j" by (simp add: last_conv_nth)
  moreover have "mset ys = mset xs"
    using shuffle_perm_shuffleArray[OF sh] v by simp
  ultimately show ?thesis using len by simp
qed

end
