(* ===== verification/Game.thy ===== *)
theory Game
  imports Grid_Packer Draw_Engine
begin

text \<open>
  The page: the global variables of \<^verbatim>\<open>src/script.js\<close> (\<^verbatim>\<open>items\<close>,
  \<^verbatim>\<open>drawInterval\<close>, \<^verbatim>\<open>gameActive\<close>, lines 120--122), the rendered tickets
  (\<^verbatim>\<open>#tickets\<close>: each cell's value, its \<^verbatim>\<open>empty-cell\<close> and \<^verbatim>\<open>highlight\<close>
  classes, the ticket's \<^verbatim>\<open>winner\<close> class), the drawn numbers listed in
  \<^verbatim>\<open>#results\<close>, the alerts shown, the win alerts scheduled by
  \<^verbatim>\<open>setTimeout\<close> and not yet shown (\<open>timeouts\<close>, in the order they were scheduled), and
  the \<^verbatim>\<open>disabled\<close> flag and text of the start button, as one record. The timer is the
  flag \<open>drawInterval\<close>: set by \<^verbatim>\<open>setInterval\<close>, cleared by \<^verbatim>\<open>clearInterval\<close>;
  a tick of the timer runs \<^verbatim>\<open>drawItem\<close>. Each handler is a function of the state (and
  of the random values it consumes); the page is the inductive relation \<open>game_step\<close> of
  button clicks, timer ticks and the firing of scheduled alerts, in any interleaving. The
  initial text of the start button is in the page's markup, which is not under
  \<^verbatim>\<open>src/\<close>; it is taken to be the text \<^verbatim>\<open>stopDraw\<close> restores.
\<close>

datatype dcell = EmptyCell | NumCell int bool

record dticket =
  drows :: "dcell list list"
  winner :: bool

datatype alert = AlertNoTickets | AlertRange | AlertWin

record game =
  items :: "int list"
  gameActive :: bool
  drawInterval :: bool
  results :: "int list"
  tickets :: "dticket list"
  alerts :: "alert list"
  timeouts :: "alert list"
  startDisabled :: bool
  startLabel :: string

definition init_game :: game where
  "init_game = \<lparr>items = generateNumbersList, gameActive = False, drawInterval = False,
                results = [], tickets = [], alerts = [], timeouts = [],
                startDisabled = False, startLabel = ''Lancer le tirage''\<rparr>"

subsection \<open>Rendering (displayTickets, lines 68--100)\<close>

definition render_cell :: "int option \<Rightarrow> dcell" where
  "render_cell c = (case c of None \<Rightarrow> EmptyCell | Some n \<Rightarrow> NumCell n False)"

definition render_ticket :: "grid \<Rightarrow> dticket" where
  "render_ticket g = \<lparr>drows = map (map render_cell) g, winner = False\<rparr>"

fun displayTickets :: "int list list \<Rightarrow> rng \<Rightarrow> (dticket list \<times> rng) option" where
  "displayTickets [] us = Some ([], us)"
| "displayTickets (t # ts) us =
     (case organizeTicket t us of
        None \<Rightarrow> None
      | Some (g, us') \<Rightarrow>
          (case displayTickets ts us' of
             None \<Rightarrow> None
           | Some (ds, us'') \<Rightarrow> Some (render_ticket g # ds, us'')))"

subsection \<open>Drawing, highlighting, detecting a win (lines 125--180)\<close>

definition stopDraw :: "game \<Rightarrow> game" where
  "stopDraw s = s\<lparr>drawInterval := False, gameActive := False, startDisabled := False,
                   startLabel := ''Lancer le tirage''\<rparr>"

text \<open>\<^verbatim>\<open>parseInt(cell.dataset.value)\<close>: an empty cell has no \<^verbatim>\<open>data-value\<close>
  and parses to \<^verbatim>\<open>NaN\<close> (\<open>None\<close>), which equals no drawn number;
  \<open>ticket_values\<close> reads all cells of a ticket in document order.\<close>

definition cell_value :: "dcell \<Rightarrow> int option" where
  "cell_value c = (case c of EmptyCell \<Rightarrow> None | NumCell v _ \<Rightarrow> Some v)"

definition ticket_values :: "dticket \<Rightarrow> int list" where
  "ticket_values t = concat (map (List.map_filter cell_value) (drows t))"

definition highlight_cell :: "int \<Rightarrow> dcell \<Rightarrow> dcell" where
  "highlight_cell n c = (case c of EmptyCell \<Rightarrow> EmptyCell | NumCell v h \<Rightarrow> NumCell v (h \<or> v = n))"

definition is_highlighted :: "dcell \<Rightarrow> bool" where
  "is_highlighted c = (case c of EmptyCell \<Rightarrow> False | NumCell v h \<Rightarrow> h)"

text \<open>\<^verbatim>\<open>.ticket-cell:not(.empty-cell)\<close> and \<^verbatim>\<open>.ticket-cell.highlight\<close> of a row.\<close>

definition cells_count :: "dcell list \<Rightarrow> nat" where
  "cells_count row = length (filter (\<lambda>c. c \<noteq> EmptyCell) row)"

definition hl_count :: "dcell list \<Rightarrow> nat" where
  "hl_count row = length (filter is_highlighted row)"

definition has_winning_line :: "dticket \<Rightarrow> bool" where
  "has_winning_line t \<longleftrightarrow> list_ex (\<lambda>row. cells_count row = 5 \<and> hl_count row = 5) (drows t)"

text \<open>The body of \<^verbatim>\<open>tickets.forEach\<close> in \<^verbatim>\<open>checkWinningTickets\<close>, for ticket \<open>i\<close>.
  The alert is scheduled by \<^verbatim>\<open>setTimeout\<close> and shown 500 ms later: it is appended to
  \<open>timeouts\<close>, and \<open>alert_timeout\<close> shows it.\<close>

definition check_ticket :: "game \<Rightarrow> nat \<Rightarrow> game" where
  "check_ticket s i =
     (let t = tickets s ! i
      in if has_winning_line t \<and> \<not> winner t
         then stopDraw (s\<lparr>tickets := (tickets s)[i := t\<lparr>winner := True\<rparr>], gameActive := False,
                         timeouts := timeouts s @ [AlertWin]\<rparr>)
         else s)"

text \<open>The callback of \<^verbatim>\<open>setTimeout(() => alert(...), 500)\<close>: the oldest scheduled alert is
  shown. Nothing ever cancels it (there is no \<^verbatim>\<open>clearTimeout\<close>).\<close>

definition alert_timeout :: "game \<Rightarrow> game option" where
  "alert_timeout s =
     (case timeouts s of [] \<Rightarrow> None | a # rest \<Rightarrow> Some (s\<lparr>timeouts := rest, alerts := alerts s @ [a]\<rparr>))"

definition checkWinningTickets :: "game \<Rightarrow> game" where
  "checkWinningTickets s = foldl check_ticket s [0..<length (tickets s)]"

definition highlightTickets :: "int \<Rightarrow> game \<Rightarrow> game" where
  "highlightTickets n s =
     checkWinningTickets
       (s\<lparr>tickets := map (\<lambda>t. t\<lparr>drows := map (map (highlight_cell n)) (drows t)\<rparr>) (tickets s)\<rparr>)"

definition drawItem :: "rng \<Rightarrow> game \<Rightarrow> game option" where
  "drawItem us s =
     (if items s \<noteq> [] \<and> gameActive s then
        (case shuffleArray us (items s) of
           None \<Rightarrow> None
         | Some (shuffled, _) \<Rightarrow>
             (let drawnItem = last shuffled
              in Some (highlightTickets drawnItem
                         (s\<lparr>items := butlast shuffled, results := results s @ [drawnItem]\<rparr>))))
      else Some (stopDraw s))"

subsection \<open>Start, reset and the generate button (lines 183--233)\<close>

definition startDraw :: "game \<Rightarrow> game" where
  "startDraw s =
     (if tickets s = [] then s\<lparr>alerts := alerts s @ [AlertNoTickets]\<rparr>
      else if gameActive s then s
      else s\<lparr>gameActive := True, startDisabled := True, startLabel := ''Tirage en cours...'',
                drawInterval := True\<rparr>)"

definition resetGame :: "game \<Rightarrow> game" where
  "resetGame s =
     (let s1 = stopDraw (s\<lparr>items := generateNumbersList\<rparr>)
      in s1\<lparr>results := [], tickets := [], gameActive := False\<rparr>)"

text \<open>\<^verbatim>\<open>parseInt(input.value) || 5\<close>: \<open>None\<close> is \<^verbatim>\<open>NaN\<close>; both \<^verbatim>\<open>NaN\<close> and 0
  are falsy and become 5.\<close>

definition ticket_count :: "int option \<Rightarrow> int" where
  "ticket_count inp = (case inp of None \<Rightarrow> 5 | Some n \<Rightarrow> if n = 0 then 5 else n)"

definition on_generate :: "int option \<Rightarrow> rng \<Rightarrow> game \<Rightarrow> game option" where
  "on_generate inp us s =
     (let n = ticket_count inp
      in if n < 1 \<or> n > 20 then Some (s\<lparr>alerts := alerts s @ [AlertRange]\<rparr>)
         else
           (let s1 = resetGame s
            in case generateMultipleTickets n us of
                 None \<Rightarrow> None
               | Some (ts, us') \<Rightarrow>
                   (case displayTickets ts us' of
                      None \<Rightarrow> None
                    | Some (ds, _) \<Rightarrow> Some (s1\<lparr>tickets := ds\<rparr>))))"

subsection \<open>The page as a step relation\<close>

datatype event = GenerateClick "int option" rng | StartClick | Tick rng | ResetClick | AlertFire

text \<open>A disabled button dispatches no click: the start button is clickable only while
  \<^verbatim>\<open>startBtn.disabled\<close> is false.\<close>

inductive game_step :: "game \<Rightarrow> event \<Rightarrow> game \<Rightarrow> bool" where
  generate: "valid_rng us \<Longrightarrow> on_generate inp us s = Some s' \<Longrightarrow> game_step s (GenerateClick inp us) s'"
| start: "\<not> startDisabled s \<Longrightarrow> game_step s StartClick (startDraw s)"
| tick: "drawInterval s \<Longrightarrow> valid_rng us \<Longrightarrow> drawItem us s = Some s' \<Longrightarrow> game_step s (Tick us) s'"
| reset: "game_step s ResetClick (resetGame s)"
| fire: "alert_timeout s = Some s' \<Longrightarrow> game_step s AlertFire s'"

inductive reachable :: "game \<Rightarrow> bool" where
  init: "reachable init_game"
| step: "reachable s \<Longrightarrow> game_step s e s' \<Longrightarrow> reachable s'"

text \<open>One tick of the timer, whatever values \<^verbatim>\<open>Math.random()\<close> returns during it.\<close>

definition tick_rel :: "game \<Rightarrow> game \<Rightarrow> bool" where
  "tick_rel s s' \<longleftrightarrow> (\<exists>us. game_step s (Tick us) s')"

subsection \<open>A sample run\<close>

text \<open>
  The page after one click on the generate button with input 1, when
  \<^verbatim>\<open>Math.random()\<close> returns the values that draw the numbers below: the ticket and
  its grid, used by the witnesses of the claims.
\<close>

abbreviation demo_rng :: rng where
  "demo_rng \<equiv> map (rand_for 1 99) [1,2,5,11,12,13,21,22,23,31,32,33,41,42,43]"

abbreviation demo_grid :: grid where
  "demo_grid \<equiv> [[Some 1, Some 11, Some 21, Some 31, Some 41, None, None, None, None, None],
                 [Some 2, Some 12, Some 22, Some 32, Some 42, None, None, None, None, None],
                 [Some 5, Some 13, Some 23, Some 33, Some 43, None, None, None, None, None]]"

abbreviation demo_state :: game where
  "demo_state \<equiv> init_game\<lparr>tickets := [render_ticket demo_grid]\<rparr>"

subsection \<open>The invariant of the page\<close>

text \<open>
  A rendered cell is well formed when an empty cell stays empty and a number in
  \<open>[1, 99]\<close> carries the \<^verbatim>\<open>highlight\<close> class exactly when it has been drawn; a
  rendered ticket has three rows of ten cells, five of them numbers, and carries the
  \<^verbatim>\<open>winner\<close> class exactly when it has a winning line. The page invariant adds that
  the timer runs, and the start button is disabled and reads
  \<^verbatim>\<open>Tirage en cours...\<close>, exactly when the game is active (\<open>ui_sync\<close>), and that
  the pool and the drawn numbers partition \<open>[1, 99]\<close>.
\<close>

definition highlight_ticket :: "int \<Rightarrow> dticket \<Rightarrow> dticket" where
  "highlight_ticket n t = t\<lparr>drows := map (map (highlight_cell n)) (drows t)\<rparr>"

definition cell_ok :: "int list \<Rightarrow> dcell \<Rightarrow> bool" where
  "cell_ok drawn c = (case c of EmptyCell \<Rightarrow> True | NumCell v h \<Rightarrow> 1 \<le> v \<and> v \<le> 99 \<and> (h \<longleftrightarrow> v \<in> set drawn))"

definition ticket_ok :: "int list \<Rightarrow> dticket \<Rightarrow> bool" where
  "ticket_ok drawn t \<longleftrightarrow> length (drows t) = 3 \<and>
     (\<forall>row\<in>set (drows t). length row = 10 \<and> cells_count row = 5 \<and> (\<forall>c\<in>set row. cell_ok drawn c)) \<and>
     (winner t \<longleftrightarrow> has_winning_line t)"

definition ui_sync :: "game \<Rightarrow> bool" where
  "ui_sync s \<longleftrightarrow> drawInterval s = gameActive s \<and> startDisabled s = gameActive s \<and>
     startLabel s = (if gameActive s then ''Tirage en cours...'' else ''Lancer le tirage'')"

definition game_inv :: "game \<Rightarrow> bool" where
  "game_inv s \<longleftrightarrow> ui_sync s \<and> distinct (items s @ results s) \<and>
     set (items s @ results s) = {1..99} \<and> (\<forall>t\<in>set (tickets s). ticket_ok (results s) t)"


lemma has_winning_line_winner [simp]: "has_winning_line (t\<lparr>winner := b\<rparr>) = has_winning_line t"
  by (simp add: has_winning_line_def)

lemma check_ticket_frame:
  "items (check_ticket s i) = items s \<and> results (check_ticket s i) = results s \<and>
   length (tickets (check_ticket s i)) = length (tickets s) \<and>
   (ui_sync s \<longrightarrow> ui_sync (check_ticket s i))"
  by (simp add: check_ticket_def stopDraw_def Let_def ui_sync_def)

lemma check_ticket_nth:
  "i < length (tickets s) \<Longrightarrow> j < length (tickets s) \<Longrightarrow>
   tickets (check_ticket s i) ! j =
     (if j = i \<and> has_winning_line (tickets s ! i) then (tickets s ! j)\<lparr>winner := True\<rparr> else tickets s ! j)"
  by (auto simp: check_ticket_def stopDraw_def Let_def)

lemma check_loop:
  "\<forall>i\<in>set is. i < length (tickets s) \<Longrightarrow> distinct is \<Longrightarrow>
   items (foldl check_ticket s is) = items s \<and> results (foldl check_ticket s is) = results s \<and>
   length (tickets (foldl check_ticket s is)) = length (tickets s) \<and>
   (ui_sync s \<longrightarrow>
      ui_sync (foldl check_ticket s is)) \<and>
   (\<forall>j<length (tickets s). tickets (foldl check_ticket s is) ! j =
      (if j \<in> set is \<and> has_winning_line (tickets s ! j) then (tickets s ! j)\<lparr>winner := True\<rparr>
       else tickets s ! j))"
proof (induction "is" arbitrary: s)
  case Nil
  then show ?case by simp
next
  case (Cons i "is")
  let ?s1 = "check_ticket s i"
  have fr: "items ?s1 = items s" "results ?s1 = results s" "length (tickets ?s1) = length (tickets s)"
    "ui_sync s \<longrightarrow> ui_sync ?s1"
    using check_ticket_frame by auto
  have i: "i < length (tickets s)" using Cons.prems by simp
  have IH: "items (foldl check_ticket ?s1 is) = items ?s1 \<and> results (foldl check_ticket ?s1 is) = results ?s1 \<and>
   length (tickets (foldl check_ticket ?s1 is)) = length (tickets ?s1) \<and>
   (ui_sync ?s1 \<longrightarrow>
      ui_sync (foldl check_ticket ?s1 is)) \<and>
   (\<forall>j<length (tickets ?s1). tickets (foldl check_ticket ?s1 is) ! j =
      (if j \<in> set is \<and> has_winning_line (tickets ?s1 ! j) then (tickets ?s1 ! j)\<lparr>winner := True\<rparr>
       else tickets ?s1 ! j))"
    using Cons.IH[of ?s1] Cons.prems fr(3) by simp
  have nth1: "\<forall>j<length (tickets s). tickets ?s1 ! j =
     (if j = i \<and> has_winning_line (tickets s ! i) then (tickets s ! j)\<lparr>winner := True\<rparr> else tickets s ! j)"
    using check_ticket_nth[OF i] by blast
  have notin: "i \<notin> set is" using Cons.prems(2) by simp
  show ?case
  proof (intro conjI allI impI)
    fix j assume j: "j < length (tickets s)"
    show "tickets (foldl check_ticket s (i # is)) ! j =
      (if j \<in> set (i # is) \<and> has_winning_line (tickets s ! j) then (tickets s ! j)\<lparr>winner := True\<rparr>
       else tickets s ! j)"
      using IH fr(3) nth1 j notin by (cases "j = i") auto
  qed (use IH fr in auto)
qed

lemma checkWinningTickets_spec:
  "items (checkWinningTickets s) = items s \<and> results (checkWinningTickets s) = results s \<and>
   length (tickets (checkWinningTickets s)) = length (tickets s) \<and>
   (ui_sync s \<longrightarrow>
      ui_sync (checkWinningTickets s)) \<and>
   (\<forall>j<length (tickets s). tickets (checkWinningTickets s) ! j =
      (if has_winning_line (tickets s ! j) then (tickets s ! j)\<lparr>winner := True\<rparr> else tickets s ! j))"
  using check_loop[of "[0..<length (tickets s)]" s] by (simp add: checkWinningTickets_def)

lemma highlightTickets_eq:
  "highlightTickets n s = checkWinningTickets (s\<lparr>tickets := map (highlight_ticket n) (tickets s)\<rparr>)"
  by (simp add: highlightTickets_def highlight_ticket_def [abs_def])

lemma highlight_cell_empty [simp]: "highlight_cell n c = EmptyCell \<longleftrightarrow> c = EmptyCell"
  by (simp add: highlight_cell_def split: dcell.splits)

lemma cells_count_highlight [simp]: "cells_count (map (highlight_cell n) row) = cells_count row"
  by (induction row) (auto simp: cells_count_def)

lemma hl_count_le: "hl_count row \<le> cells_count row"
  unfolding hl_count_def cells_count_def
  by (rule length_filter_imp) (auto simp: is_highlighted_def)

lemma hl_count_highlight_mono: "hl_count row \<le> hl_count (map (highlight_cell n) row)"
  unfolding hl_count_def
  by (simp add: comp_def, rule length_filter_imp)
    (auto simp: is_highlighted_def highlight_cell_def split: dcell.splits)

lemma has_winning_line_highlight:
  assumes "has_winning_line t" shows "has_winning_line (highlight_ticket n t)"
proof -
  obtain row where row: "row \<in> set (drows t)" "cells_count row = 5" "hl_count row = 5"
    using assms by (auto simp: has_winning_line_def list_ex_iff)
  have "hl_count (map (highlight_cell n) row) = 5"
    using hl_count_highlight_mono[of row n] hl_count_le[of "map (highlight_cell n) row"] row by simp
  then show ?thesis using row by (auto simp: has_winning_line_def highlight_ticket_def list_ex_iff)
qed

lemma cell_ok_highlight: "cell_ok drawn c \<Longrightarrow> cell_ok (drawn @ [n]) (highlight_cell n c)"
  by (auto simp: cell_ok_def highlight_cell_def split: dcell.splits)

lemma ticket_ok_draw:
  fixes n :: int
  assumes ok: "ticket_ok drawn t"
  defines "h \<equiv> highlight_ticket n t"
  shows "ticket_ok (drawn @ [n]) (if has_winning_line h then h\<lparr>winner := True\<rparr> else h)"
proof -
  have rows: "length (drows h) = 3"
    "\<forall>row\<in>set (drows h). length row = 10 \<and> cells_count row = 5 \<and> (\<forall>c\<in>set row. cell_ok (drawn @ [n]) c)"
    using ok by (auto simp: ticket_ok_def h_def highlight_ticket_def cell_ok_highlight)
  have "winner h \<longrightarrow> has_winning_line h"
    using ok has_winning_line_highlight by (auto simp: ticket_ok_def h_def highlight_ticket_def)
  then show ?thesis using rows by (auto simp: ticket_ok_def)
qed

lemma pool_draw:
  assumes "distinct (xs @ rs)" "set (xs @ rs) = {1..99}" "mset sh = mset xs" "sh \<noteq> []"
  shows "distinct (butlast sh @ rs @ [last sh]) \<and> set (butlast sh @ rs @ [last sh]) = {1..99}"
proof -
  have sh: "sh = butlast sh @ [last sh]" using assms(4) by simp
  have "mset (butlast sh @ rs @ [last sh]) = mset (xs @ rs)"
    using assms(3) sh by (metis mset_append union_commute union_assoc)
  then show ?thesis using assms(1,2) by (metis mset_eq_imp_distinct_iff set_mset_mset)
qed

lemma drawItem_inv:
  assumes inv: "game_inv s" and v: "valid_rng us" and d: "drawItem us s = Some s'"
  shows "game_inv s'"
proof (cases "items s \<noteq> [] \<and> gameActive s")
  case False
  then have "s' = stopDraw s" using d by (auto simp: drawItem_def)
  then show ?thesis using inv by (simp add: game_inv_def stopDraw_def ui_sync_def)
next
  case True
  then obtain sh r where sh: "shuffleArray us (items s) = Some (sh, r)"
    using d by (auto simp: drawItem_def split: option.splits)
  have ms: "mset sh = mset (items s)" using shuffle_perm_shuffleArray[OF sh v] .
  then have ne: "sh \<noteq> []" using True by auto
  define n where "n = last sh"
  define s0 where "s0 = s\<lparr>items := butlast sh, results := results s @ [n],
                     tickets := map (highlight_ticket n) (tickets s)\<rparr>"
  have s': "s' = checkWinningTickets s0"
    using d True sh by (simp add: drawItem_def highlightTickets_eq s0_def n_def Let_def)
  have spec: "items s' = butlast sh" "results s' = results s @ [n]"
    "length (tickets s') = length (tickets s)" "ui_sync s'"
    "\<forall>j<length (tickets s). tickets s' ! j =
       (if has_winning_line (highlight_ticket n (tickets s ! j))
        then (highlight_ticket n (tickets s ! j))\<lparr>winner := True\<rparr> else highlight_ticket n (tickets s ! j))"
    using checkWinningTickets_spec[of s0] inv unfolding s' by (auto simp: s0_def game_inv_def ui_sync_def)
  have pool: "distinct (items s' @ results s') \<and> set (items s' @ results s') = {1..99}"
    using pool_draw[of "items s" "results s" sh] inv ms ne spec(1,2) by (simp add: game_inv_def n_def)
  have "ticket_ok (results s') t" if t: "t \<in> set (tickets s')" for t
  proof -
    obtain j where j: "j < length (tickets s)" "t = tickets s' ! j"
      using t spec(3) by (auto simp: in_set_conv_nth)
    have "ticket_ok (results s) (tickets s ! j)" using inv j(1) by (auto simp: game_inv_def)
    then show ?thesis using ticket_ok_draw spec(2,5) j by simp
  qed
  then show ?thesis using pool spec(4) by (simp add: game_inv_def)
qed

lemma cells_count_render: "cells_count (map render_cell row) = count_nonnull row"
  by (induction row) (auto simp: cells_count_def render_cell_def split: option.splits)

lemma hl_count_render: "hl_count (map render_cell row) = 0"
  by (induction row) (auto simp: hl_count_def render_cell_def is_highlighted_def split: option.splits)

lemma grid_values_mem: "row \<in> set g \<Longrightarrow> Some v \<in> set row \<Longrightarrow> v \<in> set (grid_values g)"
  by (auto simp: grid_values_def List.map_filter_def image_iff intro!: bexI[of _ row] bexI[of _ "Some v"])

lemma ticket_ok_render:
  assumes t: "valid_ticket t" and p: "packed_grid t g"
  shows "ticket_ok [] (render_ticket g)"
proof -
  have rows: "length g = 3" "\<forall>row\<in>set g. length row = 10 \<and> count_nonnull row = 5"
    and ms: "mset (grid_values g) = mset t"
    using p by (auto simp: packed_grid_def list_all_iff)
  have range: "1 \<le> v \<and> v \<le> 99" if "row \<in> set g" "Some v \<in> set row" for row v
  proof -
    have "v \<in> set t" using grid_values_mem[OF that] ms by (metis set_mset_mset)
    then show ?thesis using t by (auto simp: valid_ticket_def list_all_iff)
  qed
  have "cell_ok [] (render_cell c)" if "row \<in> set g" "c \<in> set row" for row c
    using that range by (cases c) (auto simp: cell_ok_def render_cell_def)
  moreover have "\<not> has_winning_line (render_ticket g)"
    by (auto simp: has_winning_line_def render_ticket_def list_ex_iff hl_count_render)
  ultimately show ?thesis
    using rows by (auto simp: ticket_ok_def render_ticket_def cells_count_render)
qed

lemma displayTickets_ok:
  "list_all valid_ticket ts \<Longrightarrow> displayTickets ts us = Some (ds, r) \<Longrightarrow> \<forall>d\<in>set ds. ticket_ok [] d"
proof (induction ts arbitrary: us ds)
  case Nil
  then show ?case by simp
next
  case (Cons t ts)
  obtain g where g: "organizeTicket t us = Some (g, us)" "packed_grid t g"
    using organizeTicket_packs Cons.prems(1) by fastforce
  then obtain ds' where ds: "displayTickets ts us = Some (ds', r)" "ds = render_ticket g # ds'"
    using Cons.prems(2) by (auto split: option.splits)
  then show ?case using Cons.IH[OF _ ds(1)] Cons.prems(1) ticket_ok_render g(2) by auto
qed

lemma ticket_values_render: "ticket_values (render_ticket g) = grid_values g"
proof -
  have "List.map_filter cell_value (map render_cell row) = List.map_filter id row" for row
    by (induction row) (auto simp: List.map_filter_simps cell_value_def render_cell_def split: option.splits)
  then show ?thesis by (simp add: ticket_values_def render_ticket_def grid_values_def comp_def)
qed

lemma displayTickets_values:
  "list_all valid_ticket ts \<Longrightarrow> displayTickets ts us = Some (ds, r) \<Longrightarrow>
   map (\<lambda>d. sort (ticket_values d)) ds = ts"
proof (induction ts arbitrary: us ds)
  case Nil
  then show ?case by simp
next
  case (Cons t ts)
  obtain g where g: "organizeTicket t us = Some (g, us)" "packed_grid t g"
    using organizeTicket_packs Cons.prems(1) by fastforce
  then obtain ds' where ds: "displayTickets ts us = Some (ds', r)" "ds = render_ticket g # ds'"
    using Cons.prems(2) by (auto split: option.splits)
  have "mset t = mset (grid_values g)" "sorted t"
    using g(2) Cons.prems(1) by (simp_all add: packed_grid_def valid_ticket_def)
  then have "sort (grid_values g) = t" by (rule properties_for_sort)
  then show ?case using Cons.IH[OF _ ds(1)] Cons.prems(1) ds(2) by (simp add: ticket_values_render)
qed

lemma ticket_ok_nil_not_winner:
  assumes "ticket_ok [] t" shows "\<not> winner t"
proof -
  have "hl_count row = 0" if "row \<in> set (drows t)" for row
  proof -
    have "\<forall>c\<in>set row. \<not> is_highlighted c"
      using assms that by (auto simp: ticket_ok_def cell_ok_def is_highlighted_def split: dcell.splits)
    then show ?thesis by (simp add: hl_count_def filter_empty_conv)
  qed
  then show ?thesis using assms by (auto simp: ticket_ok_def has_winning_line_def list_ex_iff)
qed

lemma displayTickets_length:
  "displayTickets ts us = Some (ds, r) \<Longrightarrow> length ds = length ts"
  by (induction ts arbitrary: us ds) (auto split: option.splits)

lemma numbers_list_pool: "distinct generateNumbersList \<and> set generateNumbersList = {1..99}"
  by (simp add: generateNumbersList_def)

lemma resetGame_inv: "game_inv (resetGame s)"
  using numbers_list_pool by (simp add: game_inv_def resetGame_def stopDraw_def ui_sync_def)

lemma startDraw_inv: "game_inv s \<Longrightarrow> game_inv (startDraw s)"
  by (simp add: game_inv_def startDraw_def ui_sync_def)

lemma alert_timeout_frame:
  "alert_timeout s = Some s' \<Longrightarrow>
   s' = s\<lparr>timeouts := tl (timeouts s), alerts := alerts s @ [hd (timeouts s)]\<rparr> \<and> timeouts s \<noteq> []"
  by (auto simp: alert_timeout_def split: list.splits)

lemma alert_timeout_inv:
  assumes "game_inv s" "alert_timeout s = Some s'" shows "game_inv s'"
proof -
  have "s' = s\<lparr>timeouts := tl (timeouts s), alerts := alerts s @ [hd (timeouts s)]\<rparr>"
    using alert_timeout_frame[OF assms(2)] by blast
  then show ?thesis using assms(1) by (simp add: game_inv_def ui_sync_def)
qed

lemma on_generate_inv:
  assumes inv: "game_inv s" and v: "valid_rng us" and g: "on_generate inp us s = Some s'"
  shows "game_inv s'"
proof (cases "ticket_count inp < 1 \<or> ticket_count inp > 20")
  case True
  then show ?thesis using inv g by (auto simp: on_generate_def game_inv_def ui_sync_def)
next
  case False
  then obtain ts us' ds r where m: "generateMultipleTickets (ticket_count inp) us = Some (ts, us')"
    and d: "displayTickets ts us' = Some (ds, r)" and s': "s' = (resetGame s)\<lparr>tickets := ds\<rparr>"
    using g by (auto simp: on_generate_def Let_def split: option.splits)
  have "list_all valid_ticket ts"
    using tickets_loop_valid[of "ticket_count inp" 0 "[]" us ts us'] m v
    by (simp add: generateMultipleTickets_def)
  then have "\<forall>d\<in>set ds. ticket_ok [] d" using displayTickets_ok d by blast
  then show ?thesis using resetGame_inv[of s] s' by (simp add: game_inv_def resetGame_def stopDraw_def ui_sync_def)
qed

lemma game_step_inv: "game_step s e s' \<Longrightarrow> game_inv s \<Longrightarrow> game_inv s'"
proof (induction rule: game_step.induct)
  case (generate us inp s s')
  then show ?case using on_generate_inv by blast
next
  case (start s)
  then show ?case using startDraw_inv by blast
next
  case (tick s us s')
  then show ?case using drawItem_inv by blast
next
  case (reset s)
  show ?case by (rule resetGame_inv)
next
  case (fire s s')
  then show ?case by (rule alert_timeout_inv[rotated])
qed

lemma reachable_inv: "reachable s \<Longrightarrow> game_inv s"
proof (induction rule: reachable.induct)
  case init
  show ?case using numbers_list_pool by (simp add: game_inv_def init_game_def ui_sync_def)
next
  case (step s e s')
  then show ?case using game_step_inv by blast
qed

lemma hl_count_full:
  "hl_count row = cells_count row \<longleftrightarrow> (\<forall>c\<in>set row. c \<noteq> EmptyCell \<longrightarrow> is_highlighted c)"
proof (induction row)
  case Nil
  then show ?case by (simp add: hl_count_def cells_count_def)
next
  case (Cons c row)
  have le: "hl_count row \<le> cells_count row" by (rule hl_count_le)
  show ?case
    using Cons le by (cases c) (auto simp: hl_count_def cells_count_def is_highlighted_def)
qed

text \<open>
  C7. Draw pool: in every reachable state the undrawn numbers \<^verbatim>\<open>items\<close> and the
  drawn numbers listed in \<^verbatim>\<open>#results\<close> are duplicate-free, disjoint, and together
  are exactly \<open>[1, 99]\<close>.
\<close>

theorem reachable_pool:
  "reachable s \<Longrightarrow> distinct (items s @ results s) \<and>
     set (items s) \<union> set (results s) = {1..99} \<and> set (items s) \<inter> set (results s) = {}"
  using reachable_inv by (auto simp: game_inv_def)

text \<open>
  C11. Timer: in every reachable state the draw interval is armed exactly when
  \<^verbatim>\<open>gameActive\<close> is set, so no tick runs after \<^verbatim>\<open>stopDraw\<close>.
\<close>

theorem reachable_timer: "reachable s \<Longrightarrow> drawInterval s = gameActive s"
  using reachable_inv by (simp add: game_inv_def ui_sync_def)

text \<open>
  C4. Win detection: in every reachable state a rendered ticket carries the
  \<^verbatim>\<open>winner\<close> class exactly when one of its rows has all its numbers drawn. The
  detector reads highlight classes of the DOM; the invariant ties them to the drawn
  numbers, and the winner flag, once set, is never cleared while the ticket is shown.
\<close>

theorem winner_iff_row_drawn:
  assumes "reachable s" "t \<in> set (tickets s)"
  shows "winner t \<longleftrightarrow>
    (\<exists>row\<in>set (drows t). \<forall>c\<in>set row. \<forall>v h. c = NumCell v h \<longrightarrow> v \<in> set (results s))"
proof -
  have ok: "ticket_ok (results s) t" using reachable_inv[OF assms(1)] assms(2) by (auto simp: game_inv_def)
  have row_iff: "cells_count row = 5 \<and> hl_count row = 5 \<longleftrightarrow>
      (\<forall>c\<in>set row. \<forall>v h. c = NumCell v h \<longrightarrow> v \<in> set (results s))" if "row \<in> set (drows t)" for row
  proof -
    have five: "cells_count row = 5" and cells: "\<forall>c\<in>set row. cell_ok (results s) c"
      using ok that by (auto simp: ticket_ok_def)
    have "(\<forall>c\<in>set row. c \<noteq> EmptyCell \<longrightarrow> is_highlighted c) \<longleftrightarrow>
          (\<forall>c\<in>set row. \<forall>v h. c = NumCell v h \<longrightarrow> v \<in> set (results s))"
      using cells by (auto simp: is_highlighted_def cell_ok_def split: dcell.splits)
    then show ?thesis using five hl_count_full[of row] by simp
  qed
  have "winner t \<longleftrightarrow> has_winning_line t" using ok by (simp add: ticket_ok_def)
  then show ?thesis using row_iff by (auto simp: has_winning_line_def list_ex_iff)
qed

lemma drawItem_draw:
  assumes a: "items s \<noteq> []" "gameActive s" and d: "drawItem us s = Some s'"
  shows "\<exists>sh r. shuffleArray us (items s) = Some (sh, r) \<and> items s' = butlast sh \<and>
           results s' = results s @ [last sh] \<and> length (tickets s') = length (tickets s)"
proof -
  obtain sh r where sh: "shuffleArray us (items s) = Some (sh, r)"
    using a d by (auto simp: drawItem_def split: option.splits)
  let ?s0 = "s\<lparr>items := butlast sh, results := results s @ [last sh],
               tickets := map (highlight_ticket (last sh)) (tickets s)\<rparr>"
  have "s' = checkWinningTickets ?s0"
    using a d sh by (simp add: drawItem_def highlightTickets_eq Let_def)
  then show ?thesis using checkWinningTickets_spec[of ?s0] sh by auto
qed

lemma shuffleArray_single: "length xs = 1 \<Longrightarrow> shuffleArray us xs = Some (xs, us)"
  by (simp add: shuffleArray_def)

text \<open>
  C8. Refinement of the draw: a tick of an active game with a non-empty pool moves
  exactly one number from the pool to the drawn list, and that number is
  \<^verbatim>\<open>items[Math.floor(u * items.length)]\<close> for the first value \<open>u\<close> of
  \<^verbatim>\<open>Math.random()\<close>: shuffling the whole pool and popping is one uniform pick.
\<close>

theorem drawItem_pick:
  assumes v: "valid_rng (u # us)" and a: "items s \<noteq> []" "gameActive s"
    and d: "drawItem (u # us) s = Some s'"
  defines "x \<equiv> items s ! random_index u (length (items s))"
  shows "results s' = results s @ [x] \<and> mset (items s') = mset (items s) - {#x#}"
proof -
  obtain sh r where sh: "shuffleArray (u # us) (items s) = Some (sh, r)"
    and its: "items s' = butlast sh" "results s' = results s @ [last sh]"
    using drawItem_draw[OF a d] by blast
  have last: "last sh = x \<and> mset sh = mset (items s)"
  proof (cases "length (items s) = 1")
    case True
    have "random_index u 1 = 0" using random_index_less[of u 1] v by simp
    moreover have "last (items s) = items s ! 0" using True by (cases "items s") auto
    ultimately show ?thesis using True sh shuffleArray_single[OF True] by (auto simp: x_def)
  next
    case False
    then have "2 \<le> length (items s)" using a(1) by (cases "length (items s)") auto
    then show ?thesis using shuffleArray_last[OF _ v sh] by (simp add: x_def)
  qed
  have "sh \<noteq> []" using last a(1) by auto
  then show ?thesis using its last mset_butlast_last[of sh] by simp
qed

lemma active_has_tickets: "reachable s \<Longrightarrow> gameActive s \<Longrightarrow> tickets s \<noteq> []"
proof (induction rule: reachable.induct)
  case init
  then show ?case by (simp add: init_game_def)
next
  case (step s e s')
  from step.hyps(2) step.IH step.prems show ?case
  proof (cases rule: game_step.cases)
    case (generate us inp)
    then show ?thesis using step.prems step.IH
      by (auto simp: on_generate_def Let_def resetGame_def stopDraw_def split: if_splits option.splits)
  next
    case start
    then show ?thesis using step.prems step.IH by (auto simp: startDraw_def split: if_splits)
  next
    case (tick us)
    then show ?thesis using step.prems step.IH
    proof (cases "items s \<noteq> [] \<and> gameActive s")
      case True
      then show ?thesis using drawItem_draw[OF _ _ \<open>drawItem us s = Some s'\<close>] step.IH by fastforce
    next
      case False
      then show ?thesis using tick step.prems by (auto simp: drawItem_def stopDraw_def)
    qed
  next
    case reset
    then show ?thesis using step.prems by (simp add: resetGame_def stopDraw_def)
  next
    case fire
    then show ?thesis using step.prems step.IH alert_timeout_frame by fastforce
  qed
qed

text \<open>
  C22. Starting without tickets: in a reachable state with no rendered ticket,
  \<^verbatim>\<open>startDraw\<close> only raises the alert and the game stays inactive.
\<close>

theorem startDraw_without_tickets:
  "reachable s \<Longrightarrow> tickets s = [] \<Longrightarrow>
   startDraw s = s\<lparr>alerts := alerts s @ [AlertNoTickets]\<rparr> \<and> \<not> gameActive (startDraw s)"
  using active_has_tickets by (fastforce simp: startDraw_def)

text \<open>
  C23. The generate button rejects exactly the counts outside \<open>[1, 20]\<close>, with an alert
  and no other change; the count is \<^verbatim>\<open>parseInt(value) || 5\<close>, so an input of 0 is
  not rejected but yields five tickets.
\<close>

theorem on_generate_rejects:
  "on_generate inp us s = Some (s\<lparr>alerts := alerts s @ [AlertRange]\<rparr>) \<longleftrightarrow>
   ticket_count inp < 1 \<or> 20 < ticket_count inp"
  by (auto simp: on_generate_def Let_def resetGame_def stopDraw_def split: option.splits
      dest: arg_cong[where f = alerts])


lemma drawItem_exists:
  "\<exists>s'. drawItem (replicate (length (items s) - 1) 0) s = Some s'"
proof (cases "items s \<noteq> [] \<and> gameActive s")
  case True
  obtain sh r where "shuffleArray (replicate (length (items s) - 1) 0) (items s) = Some (sh, r)"
    using shuffle_loop_enough[of "length (items s) - 1" "replicate (length (items s) - 1) 0" "items s"]
    by (auto simp: shuffleArray_def)
  then show ?thesis using True by (simp add: drawItem_def Let_def)
qed (auto simp: drawItem_def)

lemma draw_stops:
  "game_inv s \<Longrightarrow> gameActive s \<Longrightarrow> length (items s) = n \<Longrightarrow>
   \<exists>k s'. k \<le> n + 1 \<and> (tick_rel ^^ k) s s' \<and> \<not> gameActive s' \<and> game_inv s'"
proof (induction n arbitrary: s)
  case 0
  define us where "us = replicate (length (items s) - 1) (0::real)"
  obtain s' where d: "drawItem us s = Some s'" using drawItem_exists us_def by blast
  have "s' = stopDraw s" using d "0.prems"(3) by (simp add: drawItem_def)
  moreover have "drawInterval s" using "0.prems"(1,2) by (simp add: game_inv_def ui_sync_def)
  moreover have "valid_rng us" by (simp add: us_def)
  ultimately have "tick_rel s s'" using d by (auto simp: tick_rel_def intro: game_step.tick)
  moreover have "game_inv s'" using drawItem_inv[OF "0.prems"(1) \<open>valid_rng us\<close> d] .
  ultimately show ?case using \<open>s' = stopDraw s\<close>
    by (intro exI[of _ 1] exI[of _ s']) (auto simp: stopDraw_def)
next
  case (Suc n)
  define us where "us = replicate (length (items s) - 1) (0::real)"
  obtain s1 where d: "drawItem us s = Some s1" using drawItem_exists us_def by blast
  have v: "valid_rng us" by (simp add: us_def)
  have "drawInterval s" using Suc.prems(1,2) by (simp add: game_inv_def ui_sync_def)
  then have t1: "tick_rel s s1" using d v by (auto simp: tick_rel_def intro: game_step.tick)
  have inv1: "game_inv s1" using drawItem_inv[OF Suc.prems(1) v d] .
  have ne: "items s \<noteq> []" using Suc.prems(3) by auto
  obtain sh r where sh: "shuffleArray us (items s) = Some (sh, r)" "items s1 = butlast sh"
    using drawItem_draw[OF ne Suc.prems(2) d] by blast
  have "length sh = length (items s)"
    using sh(1) shuffle_loop_length by (auto simp: shuffleArray_def)
  then have len1: "length (items s1) = n" using sh(2) Suc.prems(3) by simp
  show ?case
  proof (cases "gameActive s1")
    case False
    then show ?thesis using t1 inv1 by (intro exI[of _ 1] exI[of _ s1]) auto
  next
    case True
    obtain k s' where k: "k \<le> n + 1" "(tick_rel ^^ k) s1 s'" "\<not> gameActive s'" "game_inv s'"
      using Suc.IH[OF inv1 True len1] by blast
    have "(tick_rel ^^ Suc k) s s'" using t1 k(2) by (metis relpowp_Suc_I2)
    then show ?thesis using k by (intro exI[of _ "Suc k"] exI[of _ s']) auto
  qed
qed

lemma reachable_ticks: "(tick_rel ^^ k) s s' \<Longrightarrow> reachable s \<Longrightarrow> reachable s'"
proof (induction k arbitrary: s')
  case 0
  then show ?case by simp
next
  case (Suc k)
  then obtain s1 where "(tick_rel ^^ k) s s1" "tick_rel s1 s'" by auto
  then show ?case using Suc by (auto simp: tick_rel_def intro: reachable.step)
qed

text \<open>
  C18. The draw always ends: from every reachable state with an active game, some run of
  at most \<open>|items| + 1\<close> timer ticks reaches a state where the game is inactive (a
  ticket won, or the pool ran out and \<^verbatim>\<open>drawItem\<close> called \<^verbatim>\<open>stopDraw\<close>); from a
  fresh pool that is at most 100 ticks.
\<close>

theorem draw_terminates:
  assumes "reachable s" "gameActive s"
  shows "\<exists>k s'. k \<le> length (items s) + 1 \<and> (tick_rel ^^ k) s s' \<and> \<not> gameActive s' \<and> reachable s'"
proof -
  obtain k s' where "k \<le> length (items s) + 1" "(tick_rel ^^ k) s s'" "\<not> gameActive s'"
    using draw_stops[OF reachable_inv[OF assms(1)] assms(2) refl] by blast
  then show ?thesis using reachable_ticks assms(1) by blast
qed

text \<open>
  Any number of the pool can be drawn by the next tick: with \<open>u = k / n\<close> for its index
  \<open>k\<close> and zeros for the rest of the shuffle, \<^verbatim>\<open>drawItem\<close> pops exactly that number.
\<close>

lemma tick_draws:
  assumes x: "x \<in> set (items s)" and a: "gameActive s" "drawInterval s"
  shows "\<exists>I. tick_rel s (highlightTickets x (s\<lparr>items := I, results := results s @ [x]\<rparr>)) \<and>
    mset I = mset (items s) - {#x#}"
proof -
  let ?n = "length (items s)"
  let ?us = "index_rand (index_of (items s) x) ?n # replicate (?n - 1) 0"
  have j: "index_of (items s) x < ?n" using x by simp
  have v: "valid_rng ?us" using index_rand_range[OF j] by simp
  obtain sh r where sh: "shuffleArray ?us (items s) = Some (sh, r)"
    using shuffle_loop_enough[of "?n - 1" ?us "items s"] by (auto simp: shuffleArray_def)
  have last: "last sh = x \<and> mset sh = mset (items s)"
  proof (cases "?n = 1")
    case True
    then have "sh = items s" using sh shuffleArray_single[OF True] by simp
    moreover have "items s = [x]" using True x by (cases "items s") auto
    ultimately show ?thesis by simp
  next
    case False
    then have "2 \<le> ?n" using x by (cases "items s") (auto simp: Suc_le_eq)
    then show ?thesis using shuffleArray_last[OF _ v sh] j x by simp
  qed
  have ne: "sh \<noteq> []" "items s \<noteq> []" using last x by auto
  have "drawItem ?us s = Some (highlightTickets x (s\<lparr>items := butlast sh, results := results s @ [x]\<rparr>))"
    using sh last ne a by (simp add: drawItem_def)
  then have "tick_rel s (highlightTickets x (s\<lparr>items := butlast sh, results := results s @ [x]\<rparr>))"
    using v a unfolding tick_rel_def by (blast intro: game_step.tick)
  moreover have "mset (butlast sh) = mset (items s) - {#x#}" using mset_butlast_last[OF ne(1)] last by simp
  ultimately show ?thesis by blast
qed

text \<open>
  C16. Shape of the page: in every reachable state each rendered ticket has three rows of
  ten cells, five of them numbered, every number in \<open>[1, 99]\<close>, and a row never shows
  the same number twice.
\<close>

theorem reachable_ticket_shape:
  assumes "reachable s" "t \<in> set (tickets s)"
  shows "length (drows t) = 3 \<and>
    list_all (\<lambda>row. length row = 10 \<and> cells_count row = 5 \<and>
      list_all (\<lambda>c. case cell_value c of None \<Rightarrow> True | Some v \<Rightarrow> 1 \<le> v \<and> v \<le> 99) row) (drows t)"
proof -
  have "ticket_ok (results s) t" using reachable_inv[OF assms(1)] assms(2) by (simp add: game_inv_def)
  then show ?thesis
    by (fastforce simp: ticket_ok_def cell_ok_def cell_value_def list_all_iff split: dcell.splits)
qed

lemma tick_extends:
  "tick_rel s s' \<Longrightarrow> length (tickets s') = length (tickets s) \<and> (\<exists>d. results s' = results s @ d)"
proof -
  assume "tick_rel s s'"
  then obtain us where d: "drawItem us s = Some s'" by (auto simp: tick_rel_def elim: game_step.cases)
  show ?thesis
  proof (cases "items s \<noteq> [] \<and> gameActive s")
    case True
    then show ?thesis using drawItem_draw[OF _ _ d] by blast
  next
    case False
    then show ?thesis using d by (auto simp: drawItem_def stopDraw_def)
  qed
qed

lemma ticks_extend:
  "(tick_rel ^^ k) s s' \<Longrightarrow> length (tickets s') = length (tickets s) \<and> (\<exists>d. results s' = results s @ d)"
proof (induction k arbitrary: s')
  case 0
  then show ?case by simp
next
  case (Suc k)
  then obtain s1 where "(tick_rel ^^ k) s s1" "tick_rel s1 s'" by auto
  then show ?case using Suc.IH tick_extends by fastforce
qed

subsection \<open>The sample run and the witnesses\<close>

lemma demo_generate: "on_generate (Some 1) demo_rng init_game = Some demo_state"
proof -
  have o: "organizeTicket [1, 2, 5, 11, 12, 13, 21, 22, 23, 31, 32, 33, 41, 42, 43] [] =
     Some (demo_grid, [])"
    by code_simp
  show ?thesis
    by (simp add: o on_generate_def ticket_count_def generateMultipleTickets_def tickets_loop.simps
        generateLottoTicket_def column_free_def column_of_def js_get_def resetGame_def
        stopDraw_def init_game_def)
qed

lemma demo_reachable: "reachable demo_state"
proof -
  have "valid_rng demo_rng" by (simp add: rand_for_range)
  then show ?thesis
    using reachable.step[OF reachable.init game_step.generate] demo_generate by blast
qed

lemma demo_start: "reachable (startDraw demo_state)"
proof -
  have "\<not> startDisabled demo_state" by (simp add: init_game_def)
  then show ?thesis using reachable.step[OF demo_reachable game_step.start] by blast
qed

theorem reachable_pool_witness:
  "reachable demo_state \<and> distinct (items demo_state @ results demo_state) \<and>
   set (items demo_state) \<union> set (results demo_state) = {1..99} \<and>
   set (items demo_state) \<inter> set (results demo_state) = {}"
  using demo_reachable reachable_pool[OF demo_reachable] by blast

theorem reachable_timer_witness:
  "reachable demo_state \<and> drawInterval demo_state = gameActive demo_state"
  using demo_reachable reachable_timer[OF demo_reachable] by blast

theorem winner_iff_row_drawn_witness:
  "reachable demo_state \<and> render_ticket demo_grid \<in> set (tickets demo_state) \<and>
   (winner (render_ticket demo_grid) \<longleftrightarrow>
    (\<exists>row\<in>set (drows (render_ticket demo_grid)). \<forall>c\<in>set row. \<forall>v h.
        c = NumCell v h \<longrightarrow> v \<in> set (results demo_state)))"
  using demo_reachable winner_iff_row_drawn[OF demo_reachable, of "render_ticket demo_grid"] by simp

theorem drawItem_pick_witness:
  "valid_rng [1 / 2, 0] \<and> items (init_game\<lparr>items := [7, 8, 9], gameActive := True\<rparr>) \<noteq> [] \<and>
   gameActive (init_game\<lparr>items := [7, 8, 9], gameActive := True\<rparr>) \<and>
   drawItem [1 / 2, 0] (init_game\<lparr>items := [7, 8, 9], gameActive := True\<rparr>) =
     Some (init_game\<lparr>items := [9, 7], gameActive := True, results := [8]\<rparr>) \<and>
   results (init_game\<lparr>items := [9, 7], gameActive := True, results := [8]\<rparr>) = [] @ [8] \<and>
   mset (items (init_game\<lparr>items := [9, 7], gameActive := True, results := [8]\<rparr>)) = mset [7, 8, 9] - {#8#}"
proof -
  have d: "drawItem [1 / 2, 0] (init_game\<lparr>items := [7, 8, 9], gameActive := True\<rparr>) =
     Some (init_game\<lparr>items := [9, 7], gameActive := True, results := [8]\<rparr>)"
    by (simp add: drawItem_def shuffleArray_def random_index_def highlightTickets_def
        checkWinningTickets_def init_game_def)
  have v: "valid_rng [1 / 2, 0]" by simp
  have "random_index (1 / 2) 3 = 1" by (simp add: random_index_def)
  then show ?thesis
    using d v drawItem_pick[OF v _ _ d] by (simp add: init_game_def)
qed

theorem startDraw_without_tickets_witness:
  "reachable init_game \<and> tickets init_game = [] \<and>
   startDraw init_game = init_game\<lparr>alerts := [AlertNoTickets]\<rparr> \<and> \<not> gameActive (startDraw init_game)"
  using reachable.init startDraw_without_tickets[OF reachable.init] by (simp add: init_game_def)

theorem on_generate_rejects_witness:
  "on_generate (Some 21) [] init_game = Some (init_game\<lparr>alerts := [AlertRange]\<rparr>) \<and>
   on_generate (Some 0) [] init_game \<noteq> Some (init_game\<lparr>alerts := [AlertRange]\<rparr>)"
  using on_generate_rejects[of "Some 21" "[]" init_game] on_generate_rejects[of "Some 0" "[]" init_game]
  by (simp add: ticket_count_def init_game_def)

theorem draw_terminates_witness:
  "reachable (startDraw demo_state) \<and> gameActive (startDraw demo_state) \<and>
   (\<exists>k s'. k \<le> length (items (startDraw demo_state)) + 1 \<and> (tick_rel ^^ k) (startDraw demo_state) s' \<and>
      \<not> gameActive s' \<and> reachable s')"
proof -
  have r: "reachable (startDraw demo_state)"
    by (rule demo_start)
  have a: "gameActive (startDraw demo_state)" by (simp add: startDraw_def init_game_def)
  show ?thesis using r a draw_terminates[OF r a] by blast
qed


theorem reachable_ticket_shape_witness:
  "reachable demo_state \<and> render_ticket demo_grid \<in> set (tickets demo_state) \<and>
   length (drows (render_ticket demo_grid)) = 3 \<and>
   list_all (\<lambda>row. length row = 10 \<and> cells_count row = 5 \<and>
      list_all (\<lambda>c. case cell_value c of None \<Rightarrow> True | Some v \<Rightarrow> 1 \<le> v \<and> v \<le> 99) row)
     (drows (render_ticket demo_grid))"
  using demo_reachable reachable_ticket_shape[OF demo_reachable, of "render_ticket demo_grid"] by simp


text \<open>
  C14. A stopped draw can be resumed: there is a reachable state in which the draw has
  stopped by itself (the pool ran out or a ticket won) after numbers were drawn, and a
  click on the start button re-arms the timer on the same pool and drawn numbers, without
  a reset. The spec (section 4.5) only leaves \<open>Stopped\<close> through a reset.
\<close>

theorem restart_after_stop:
  "\<exists>s. reachable s \<and> \<not> gameActive s \<and> results s \<noteq> [] \<and>
     gameActive (startDraw s) \<and> drawInterval (startDraw s) \<and>
     results (startDraw s) = results s \<and> items (startDraw s) = items s"
proof -
  define S0 where "S0 = startDraw demo_state"
  have r0: "reachable S0" using demo_start unfolding S0_def .
  have a0: "gameActive S0" "items S0 \<noteq> []" "results S0 = []" "tickets S0 \<noteq> []"
    by (simp_all add: S0_def startDraw_def init_game_def generateNumbersList_def)
  obtain k s' where k: "(tick_rel ^^ k) S0 s'" "\<not> gameActive s'"
    using draw_stops[OF reachable_inv[OF r0] a0(1) refl] by blast
  obtain k' where k': "k = Suc k'" using k a0(1) by (cases k) auto
  then obtain s1 where t1: "tick_rel S0 s1" and rest: "(tick_rel ^^ k') s1 s'"
    using k(1) by (metis relpowp_Suc_D2)
  obtain us where d1: "drawItem us S0 = Some s1" using t1 by (auto simp: tick_rel_def elim: game_step.cases)
  have "results s1 \<noteq> []" using drawItem_draw[OF a0(2,1) d1] by auto
  then have res: "results s' \<noteq> []" using ticks_extend[OF rest] by auto
  have "tickets s' \<noteq> []" using ticks_extend[OF k(1)] a0(4) by auto
  moreover have "reachable s'" using reachable_ticks[OF k(1) r0] .
  ultimately show ?thesis using k(2) res by (intro exI[of _ s']) (simp add: startDraw_def)
qed


text \<open>
  C12. The start button mirrors the game: in every reachable state it is disabled and reads
  \<^verbatim>\<open>Tirage en cours...\<close> exactly while the game is active, and reads
  \<^verbatim>\<open>Lancer le tirage\<close> otherwise; so a click on it only reaches
  \<^verbatim>\<open>startDraw\<close> when the game is inactive, and the guard
  \<^verbatim>\<open>if (gameActive) return\<close> of line 189 never fires from the page.
\<close>

theorem start_button_sync:
  assumes "reachable s"
  shows "startDisabled s = gameActive s \<and>
    startLabel s = (if gameActive s then ''Tirage en cours...'' else ''Lancer le tirage'') \<and>
    (\<forall>s'. game_step s StartClick s' \<longrightarrow> \<not> gameActive s)"
proof -
  have "ui_sync s" using reachable_inv[OF assms] by (simp add: game_inv_def)
  then show ?thesis by (auto simp: ui_sync_def elim: game_step.cases)
qed

theorem start_button_sync_witness:
  "reachable demo_state \<and> game_step demo_state StartClick (startDraw demo_state) \<and>
   \<not> gameActive demo_state \<and> startDisabled demo_state = gameActive demo_state \<and>
   startLabel demo_state = ''Lancer le tirage'' \<and>
   startDisabled (startDraw demo_state) = gameActive (startDraw demo_state) \<and>
   startLabel (startDraw demo_state) = ''Tirage en cours...''"
proof -
  have st: "game_step demo_state StartClick (startDraw demo_state)"
    by (rule game_step.start) (simp add: init_game_def)
  have "startDisabled demo_state = gameActive demo_state \<and>
    startLabel demo_state = (if gameActive demo_state then ''Tirage en cours...'' else ''Lancer le tirage'') \<and>
    (\<forall>s'. game_step demo_state StartClick s' \<longrightarrow> \<not> gameActive demo_state)"
    using start_button_sync[OF demo_reachable] .
  moreover have "startDisabled (startDraw demo_state) = gameActive (startDraw demo_state) \<and>
    startLabel (startDraw demo_state) = ''Tirage en cours...''"
    using start_button_sync[OF demo_start] by (simp add: startDraw_def init_game_def)
  ultimately show ?thesis using demo_reachable st by (simp add: init_game_def)
qed

end
