(* ===== verification/Draw_Spec.thy ===== *)
theory Draw_Spec
  imports Game
begin

text \<open>
  The draw engine as the spec describes it (section 4.5): a phase \<open>Idle\<close>,
  \<open>Active\<close> or \<open>Stopped\<close>, the pool of undrawn numbers as a set, the drawn numbers in
  order and the number of grids shown. \<open>spec_step\<close> has one rule per operation of the
  spec: start, drawing one number (possibly followed by the stop a win triggers),
  stopping on an empty pool or on request, reset, and generation (which resets first).
  One rule is not in the spec: \<open>restart\<close>, from \<open>Stopped\<close> back to \<open>Active\<close>, which
  the page allows because \<^verbatim>\<open>startDraw\<close> only checks \<^verbatim>\<open>gameActive\<close>. The
  abstraction \<open>abs_game\<close> reads the phase off \<^verbatim>\<open>gameActive\<close> and the drawn list, and
  the refinement theorem shows every step of the page is a step of this machine or
  leaves its abstraction unchanged.
\<close>

datatype phase = Idle | Active | Stopped

record draw_spec =
  phase :: phase
  pool :: "int set"
  drawn :: "int list"
  grids :: nat

inductive spec_step :: "draw_spec \<Rightarrow> draw_spec \<Rightarrow> bool" where
  start: "phase a = Idle \<Longrightarrow> 0 < grids a \<Longrightarrow> spec_step a (a\<lparr>phase := Active\<rparr>)"
| draw: "phase a = Active \<Longrightarrow> x \<in> pool a \<Longrightarrow>
     spec_step a (a\<lparr>pool := pool a - {x}, drawn := drawn a @ [x]\<rparr>)"
| draw_win: "phase a = Active \<Longrightarrow> x \<in> pool a \<Longrightarrow>
     spec_step a (a\<lparr>pool := pool a - {x}, drawn := drawn a @ [x], phase := Stopped\<rparr>)"
| exhausted: "phase a = Active \<Longrightarrow> pool a = {} \<Longrightarrow> spec_step a (a\<lparr>phase := Stopped\<rparr>)"
| stop: "phase a = Active \<Longrightarrow> spec_step a (a\<lparr>phase := Stopped\<rparr>)"
| reset: "spec_step a \<lparr>phase = Idle, pool = {1..99}, drawn = [], grids = 0\<rparr>"
| generate: "1 \<le> n \<Longrightarrow> n \<le> 20 \<Longrightarrow> spec_step a \<lparr>phase = Idle, pool = {1..99}, drawn = [], grids = n\<rparr>"
| restart: "phase a = Stopped \<Longrightarrow> 0 < grids a \<Longrightarrow> spec_step a (a\<lparr>phase := Active\<rparr>)"

definition abs_game :: "game \<Rightarrow> draw_spec" where
  "abs_game s = \<lparr>phase = (if gameActive s then Active else if results s = [] then Idle else Stopped),
                 pool = set (items s), drawn = results s, grids = length (tickets s)\<rparr>"

subsection \<open>Refinement\<close>

lemma abs_stopDraw_exhausted:
  assumes inv: "game_inv s" and a: "gameActive s" and e: "items s = []"
  shows "spec_step (abs_game s) (abs_game (stopDraw s))"
proof -
  have "results s \<noteq> []" using inv e by (auto simp: game_inv_def)
  then have "abs_game (stopDraw s) = (abs_game s)\<lparr>phase := Stopped\<rparr>"
    by (simp add: abs_game_def stopDraw_def)
  then show ?thesis using a e spec_step.exhausted[of "abs_game s"] by (simp add: abs_game_def)
qed

lemma abs_drawItem:
  assumes inv: "game_inv s" and v: "valid_rng us" and d: "drawItem us s = Some s'"
    and act: "gameActive s"
  shows "spec_step (abs_game s) (abs_game s')"
proof (cases "items s = []")
  case True
  then have "s' = stopDraw s" using d by (simp add: drawItem_def)
  then show ?thesis using abs_stopDraw_exhausted[OF inv act True] by simp
next
  case False
  obtain sh r where sh: "shuffleArray us (items s) = Some (sh, r)" "items s' = butlast sh"
    "results s' = results s @ [last sh]" "length (tickets s') = length (tickets s)"
    using drawItem_draw[OF False act d] by blast
  have ms: "mset sh = mset (items s)" using shuffle_perm_shuffleArray[OF sh(1) v] .
  have ne: "sh \<noteq> []" using ms False by auto
  have dist: "distinct sh" using inv ms by (auto simp: game_inv_def dest: mset_eq_imp_distinct_iff)
  have x: "last sh \<in> set (items s)" using ne ms by (metis last_in_set set_mset_mset)
  have "set (butlast sh) = set sh - {last sh}" using set_butlast_distinct[OF dist ne] .
  then have pool': "set (items s') = set (items s) - {last sh}"
    using sh(2) ms by (metis set_mset_mset)
  show ?thesis
  proof (cases "gameActive s'")
    case True
    then have "abs_game s' = (abs_game s)\<lparr>pool := pool (abs_game s) - {last sh},
                  drawn := drawn (abs_game s) @ [last sh]\<rparr>"
      using act pool' sh(3,4) by (simp add: abs_game_def)
    then show ?thesis using spec_step.draw[of "abs_game s" "last sh"] act x by (simp add: abs_game_def)
  next
    case False
    then have "abs_game s' = (abs_game s)\<lparr>pool := pool (abs_game s) - {last sh},
                  drawn := drawn (abs_game s) @ [last sh], phase := Stopped\<rparr>"
      using act pool' sh(3,4) by (simp add: abs_game_def)
    then show ?thesis using spec_step.draw_win[of "abs_game s" "last sh"] act x by (simp add: abs_game_def)
  qed
qed


lemma abs_on_generate:
  assumes v: "valid_rng us" and g: "on_generate inp us s = Some s'"
  shows "abs_game s' = abs_game s \<or> spec_step (abs_game s) (abs_game s')"
proof (cases "ticket_count inp < 1 \<or> 20 < ticket_count inp")
  case True
  then show ?thesis using g by (auto simp: on_generate_def abs_game_def)
next
  case False
  then obtain ts us' ds r where m: "generateMultipleTickets (ticket_count inp) us = Some (ts, us')"
    and d: "displayTickets ts us' = Some (ds, r)" and s': "s' = (resetGame s)\<lparr>tickets := ds\<rparr>"
    using g by (auto simp: on_generate_def Let_def split: option.splits)
  have "length ts = nat (ticket_count inp)"
    using tickets_loop_valid[of "ticket_count inp" 0 "[]" us ts us'] m v
    by (simp add: generateMultipleTickets_def)
  then have n: "length ds = nat (ticket_count inp)" using displayTickets_length[OF d] by simp
  have "abs_game s' = \<lparr>phase = Idle, pool = {1..99}, drawn = [], grids = length ds\<rparr>"
    using s' numbers_list_pool by (simp add: abs_game_def resetGame_def stopDraw_def)
  moreover have "1 \<le> length ds" "length ds \<le> 20" using n False by auto
  ultimately show ?thesis using spec_step.generate by metis
qed

lemma abs_startDraw: "abs_game (startDraw s) = abs_game s \<or> spec_step (abs_game s) (abs_game (startDraw s))"
proof (cases "tickets s = [] \<or> gameActive s")
  case True
  then show ?thesis by (auto simp: startDraw_def abs_game_def)
next
  case False
  then have eq: "abs_game (startDraw s) = (abs_game s)\<lparr>phase := Active\<rparr>" "0 < grids (abs_game s)"
    by (auto simp: startDraw_def abs_game_def)
  show ?thesis
  proof (cases "results s = []")
    case True
    then have "phase (abs_game s) = Idle" using False by (simp add: abs_game_def)
    then show ?thesis using eq spec_step.start by metis
  next
    case nr: False
    then have "phase (abs_game s) = Stopped" using False by (simp add: abs_game_def)
    then show ?thesis using eq spec_step.restart by metis
  qed
qed

lemma game_step_refines:
  assumes r: "reachable s" and st: "game_step s e s'"
  shows "abs_game s' = abs_game s \<or> spec_step (abs_game s) (abs_game s')"
  using st
proof cases
  case (generate us inp)
  then show ?thesis using abs_on_generate by blast
next
  case start
  then show ?thesis using abs_startDraw by blast
next
  case (tick us)
  have inv: "game_inv s" using reachable_inv[OF r] .
  then have "gameActive s" using tick(2) by (simp add: game_inv_def ui_sync_def)
  then show ?thesis using abs_drawItem[OF inv tick(3,4)] by blast
next
  case reset
  have "abs_game s' = \<lparr>phase = Idle, pool = {1..99}, drawn = [], grids = 0\<rparr>"
    using reset numbers_list_pool by (simp add: abs_game_def resetGame_def stopDraw_def)
  then show ?thesis using spec_step.reset by metis
next
  case fire
  then have "abs_game s' = abs_game s" by (auto dest!: alert_timeout_frame simp: abs_game_def)
  then show ?thesis by blast
qed

text \<open>
  C13. Refinement: the abstraction of every reachable state of the page is reached by the
  abstract draw engine from its initial state (idle, full pool, nothing drawn, no grid);
  every click and every tick is a step of the abstract machine or leaves the abstraction
  unchanged (a scheduled alert being shown is such a stuttering step).
\<close>

theorem game_refines_spec:
  "reachable s \<Longrightarrow> spec_step\<^sup>*\<^sup>* (abs_game init_game) (abs_game s)"
proof (induction rule: reachable.induct)
  case init
  show ?case by simp
next
  case (step s e s')
  then show ?case using game_step_refines[OF step.hyps] by (auto intro: rtranclp.rtrancl_into_rtrancl)
qed

theorem game_refines_spec_witness:
  "reachable demo_state \<and> spec_step\<^sup>*\<^sup>* (abs_game init_game) (abs_game demo_state) \<and>
   abs_game demo_state = \<lparr>phase = Idle, pool = {1..99}, drawn = [], grids = 1\<rparr>"
proof -
  have "abs_game demo_state = \<lparr>phase = Idle, pool = {1..99}, drawn = [], grids = 1\<rparr>"
    using numbers_list_pool by (simp add: abs_game_def init_game_def)
  then show ?thesis using demo_reachable game_refines_spec[OF demo_reachable] by blast
qed

end
