(* ===== verification/Win_Reference.thy ===== *)
theory Win_Reference
  imports Game
begin

text \<open>
  The win check against the specification's \<^verbatim>\<open>evaluate\<close> (spec section 4.6): a
  declarative reference that marks every ticket with a complete row that has not won yet,
  schedules one alert per such ticket and stops the draw when there is at least one. The
  imperative \<^verbatim>\<open>tickets.forEach\<close> of \<^verbatim>\<open>checkWinningTickets\<close>
  (\<^verbatim>\<open>src/script.js\<close> lines 154--180) is proved equal to it, and from that a
  ticket that has won keeps its \<^verbatim>\<open>winner\<close> class and is never reported twice.
\<close>

definition newly_won :: "dticket \<Rightarrow> bool" where
  "newly_won t \<longleftrightarrow> has_winning_line t \<and> \<not> winner t"

definition win_update :: "dticket \<Rightarrow> dticket" where
  "win_update t = (if newly_won t then t\<lparr>winner := True\<rparr> else t)"

definition evaluate :: "game \<Rightarrow> game" where
  "evaluate s =
     (let k = length (filter newly_won (tickets s))
      in if k = 0 then s
         else stopDraw (s\<lparr>tickets := map win_update (tickets s),
                            timeouts := timeouts s @ replicate k AlertWin\<rparr>))"

text \<open>A one-row ticket with 1 to 4 highlighted and a pool holding only 5, for the witness:
  the next tick draws 5 and completes the row.\<close>

abbreviation latch_ticket :: "bool \<Rightarrow> bool \<Rightarrow> dticket" where
  "latch_ticket h w \<equiv> \<lparr>drows = [[NumCell 1 True, NumCell 2 True, NumCell 3 True, NumCell 4 True, NumCell 5 h]],
                         winner = w\<rparr>"

abbreviation latch_state :: game where
  "latch_state \<equiv> init_game\<lparr>items := [5], gameActive := True, drawInterval := True,
                             startDisabled := True, startLabel := ''Tirage en cours...'',
                             tickets := [latch_ticket False False]\<rparr>"

lemma win_update_id: "filter newly_won ts = [] \<Longrightarrow> map win_update ts = ts"
  by (induction ts) (auto simp: win_update_def)

lemma winner_win_update: "winner (win_update t) \<longleftrightarrow> winner t \<or> newly_won t"
  by (simp add: win_update_def)

lemma check_prefix:
  "k \<le> length (tickets s) \<Longrightarrow>
   foldl check_ticket s [0..<k] =
     (let n = length (filter newly_won (take k (tickets s)))
      in if n = 0 then s
         else stopDraw (s\<lparr>tickets := map win_update (take k (tickets s)) @ drop k (tickets s),
                            timeouts := timeouts s @ replicate n AlertWin\<rparr>))"
proof (induction k)
  case 0
  then show ?case by simp
next
  case (Suc k)
  let ?t = "tickets s ! k"
  have k: "k < length (tickets s)" using Suc.prems by simp
  have tk: "take (Suc k) (tickets s) = take k (tickets s) @ [?t]" using k by (simp add: take_Suc_conv_app_nth)
  have dk: "drop k (tickets s) = ?t # drop (Suc k) (tickets s)" using k by (simp add: Cons_nth_drop_Suc)
  have nth: "(map win_update (take k (tickets s)) @ drop k (tickets s)) ! k = ?t"
    using k by (simp add: nth_append)
  have upd: "(map win_update (take k (tickets s)) @ drop k (tickets s))[k := ?t\<lparr>winner := True\<rparr>] =
      map win_update (take (Suc k) (tickets s)) @ drop (Suc k) (tickets s)" if "newly_won ?t"
    using k that tk dk by (simp add: list_update_append win_update_def)
  have same: "map win_update (take (Suc k) (tickets s)) @ drop (Suc k) (tickets s) =
      map win_update (take k (tickets s)) @ drop k (tickets s)" if "\<not> newly_won ?t"
    using that tk dk by (simp add: win_update_def)
  have upd0: "(tickets s)[k := ?t\<lparr>winner := True\<rparr>] =
      map win_update (take (Suc k) (tickets s)) @ drop (Suc k) (tickets s)"
    if "newly_won ?t" "filter newly_won (take k (tickets s)) = []"
    using upd[OF that(1)] win_update_id[OF that(2)] by (simp add: upd_conv_take_nth_drop k)
  have step: "foldl check_ticket s [0..<Suc k] = check_ticket (foldl check_ticket s [0..<k]) k" by simp
  consider (none) "filter newly_won (take k (tickets s)) = []" "\<not> newly_won ?t"
    | (first) "filter newly_won (take k (tickets s)) = []" "newly_won ?t"
    | (later) "filter newly_won (take k (tickets s)) \<noteq> []" by blast
  then show ?case
  proof cases
    case none
    then show ?thesis using step Suc.IH[OF Suc_leD[OF Suc.prems]] tk
      by (simp add: check_ticket_def Let_def newly_won_def[symmetric])
  next
    case first
    then show ?thesis using step Suc.IH[OF Suc_leD[OF Suc.prems]] tk upd0[OF first(2,1)]
      by (simp add: check_ticket_def stopDraw_def Let_def newly_won_def[symmetric])
  next
    case later
    then show ?thesis using step Suc.IH[OF Suc_leD[OF Suc.prems]] tk nth upd same
      by (cases "newly_won ?t")
        (simp_all add: check_ticket_def stopDraw_def Let_def newly_won_def[symmetric] replicate_append_same)
  qed
qed

lemma check_fields:
  "tickets (checkWinningTickets s) = map win_update (tickets s) \<and>
   timeouts (checkWinningTickets s) =
     timeouts s @ replicate (length (filter newly_won (tickets s))) AlertWin"
  using check_prefix[of "length (tickets s)" s] win_update_id[of "tickets s"]
  by (simp add: checkWinningTickets_def Let_def stopDraw_def)

lemma newly_won_highlight: "winner (highlight_ticket x t) = winner t"
  by (simp add: highlight_ticket_def)

text \<open>
  C6. Equivalence of the win check with the reference: the \<^verbatim>\<open>forEach\<close> loop of
  \<^verbatim>\<open>checkWinningTickets\<close>, which stops the draw at each new winner it meets and
  goes on with the next ticket, computes exactly \<open>evaluate\<close>: all newly complete tickets
  are marked, one alert is scheduled per new winner, and the draw stops iff there is one.
\<close>

theorem checkWinningTickets_equiv: "checkWinningTickets s = evaluate s"
  using check_prefix[of "length (tickets s)" s] by (simp add: checkWinningTickets_def evaluate_def Let_def)

text \<open>
  C9. Win latch and single report (spec section 2, \<^verbatim>\<open>WinState\<close>, and section 5): a
  timer tick keeps the tickets, never clears a ticket's \<^verbatim>\<open>winner\<close> class, and adds
  exactly one scheduled win alert for each ticket that becomes a winner during the tick.
\<close>

theorem tick_win_latch:
  assumes "game_step s (Tick us) s'"
  shows "length (tickets s') = length (tickets s) \<and>
    (\<forall>i<length (tickets s). winner (tickets s ! i) \<longrightarrow> winner (tickets s' ! i)) \<and>
    length (filter ((=) AlertWin) (timeouts s')) = length (filter ((=) AlertWin) (timeouts s)) +
      length (filter (\<lambda>i. \<not> winner (tickets s ! i) \<and> winner (tickets s' ! i)) [0..<length (tickets s)])"
proof -
  have d: "drawItem us s = Some s'" using assms by (cases rule: game_step.cases) auto
  show ?thesis
  proof (cases "items s \<noteq> [] \<and> gameActive s")
    case False
    then have "s' = stopDraw s" using d by (auto simp: drawItem_def)
    then show ?thesis by (simp add: stopDraw_def)
  next
    case True
    then obtain sh r where "shuffleArray us (items s) = Some (sh, r)"
      and s': "s' = highlightTickets (last sh) (s\<lparr>items := butlast sh, results := results s @ [last sh]\<rparr>)"
      using d by (auto simp: drawItem_def Let_def split: option.splits)
    let ?hs = "map (highlight_ticket (last sh)) (tickets s)"
    have f: "tickets s' = map win_update ?hs"
      "timeouts s' = timeouts s @ replicate (length (filter newly_won ?hs)) AlertWin"
      using check_fields s' by (simp_all add: highlightTickets_eq)
    have w: "winner (tickets s' ! i) \<longleftrightarrow> winner (tickets s ! i) \<or> newly_won (?hs ! i)"
      if "i < length (tickets s)" for i
      using that f(1) by (simp add: winner_win_update newly_won_highlight)
    have nw: "newly_won (?hs ! i) \<Longrightarrow> \<not> winner (tickets s ! i)" if "i < length (tickets s)" for i
      using that by (simp add: newly_won_def newly_won_highlight)
    have "filter (\<lambda>i. \<not> winner (tickets s ! i) \<and> winner (tickets s' ! i)) [0..<length (tickets s)] =
        filter (\<lambda>i. newly_won (?hs ! i)) [0..<length (tickets s)]"
      using w nw by (intro filter_cong) auto
    then have "length (filter (\<lambda>i. \<not> winner (tickets s ! i) \<and> winner (tickets s' ! i)) [0..<length (tickets s)]) =
        length (filter newly_won ?hs)"
      using length_filter_nth[of newly_won ?hs] by simp
    then show ?thesis using f w by (simp add: filter_replicate)
  qed
qed

text \<open>The latch at a concrete tick: drawing 5 completes the row, the ticket becomes a winner
  and exactly one alert is scheduled.\<close>

theorem tick_win_latch_witness:
  "game_step latch_state (Tick [])
     (latch_state\<lparr>items := [], results := [5], tickets := [latch_ticket True True], gameActive := False,
        drawInterval := False, startDisabled := False, startLabel := ''Lancer le tirage'',
        timeouts := [AlertWin]\<rparr>) \<and>
   length [latch_ticket True True] = length [latch_ticket False False] \<and>
   \<not> winner (latch_ticket False False) \<and> winner (latch_ticket True True) \<and>
   length (filter ((=) AlertWin) [AlertWin]) = length (filter ((=) AlertWin) ([] :: alert list)) + 1"
proof -
  have st: "game_step latch_state (Tick [])
     (latch_state\<lparr>items := [], results := [5], tickets := [latch_ticket True True], gameActive := False,
        drawInterval := False, startDisabled := False, startLabel := ''Lancer le tirage'',
        timeouts := [AlertWin]\<rparr>)"
    by (rule game_step.tick)
      (simp_all add: drawItem_def shuffleArray_def highlightTickets_def checkWinningTickets_def
        check_ticket_def has_winning_line_def cells_count_def hl_count_def is_highlighted_def
        highlight_cell_def stopDraw_def init_game_def)
  show ?thesis using st tick_win_latch[OF st] by (simp add: init_game_def)
qed
end
