(* ===== verification/Alerts.thy ===== *)
theory Alerts
  imports Game
begin

text \<open>
  The win alerts: \<^verbatim>\<open>checkWinningTickets\<close> (\<^verbatim>\<open>src/script.js\<close> lines 170--178)
  does not call \<^verbatim>\<open>alert\<close> itself but schedules it with
  \<^verbatim>\<open>setTimeout(..., 500)\<close>. The page keeps the scheduled callbacks in \<open>timeouts\<close>;
  each \<open>AlertFire\<close> step runs the oldest one (\<open>alert_timeout\<close>), in any interleaving
  with clicks and ticks. Callbacks with the same delay run in the order they were
  scheduled, and nothing cancels them: the claim here shows that the reset button does not
  cancel one.
\<close>

text \<open>One firing of a scheduled callback.\<close>

definition fire_rel :: "game \<Rightarrow> game \<Rightarrow> bool" where
  "fire_rel s s' \<longleftrightarrow> game_step s AlertFire s'"

lemma fire_rel_Cons:
  "timeouts s = a # rest \<Longrightarrow> fire_rel s (s\<lparr>timeouts := rest, alerts := alerts s @ [a]\<rparr>)"
  by (simp add: fire_rel_def game_step.simps alert_timeout_def)

lemma resetGame_timeouts [simp]: "timeouts (resetGame s) = timeouts s \<and> alerts (resetGame s) = alerts s"
  by (simp add: resetGame_def stopDraw_def)

text \<open>
  C10. A reset does not cancel a scheduled alert: after a reset the page is
  fresh (no ticket, nothing drawn, full pool, draw stopped), yet the win alert scheduled
  before it is still shown by the next firing of the pending callback.
\<close>

theorem scheduled_alert_survives_reset:
  assumes "timeouts s = a # rest"
  shows "game_step s ResetClick (resetGame s) \<and> tickets (resetGame s) = [] \<and>
    results (resetGame s) = [] \<and> items (resetGame s) = generateNumbersList \<and>
    \<not> gameActive (resetGame s) \<and>
    fire_rel (resetGame s) ((resetGame s)\<lparr>timeouts := rest, alerts := alerts s @ [a]\<rparr>)"
  using fire_rel_Cons[of "resetGame s" a rest] assms
  by (simp add: game_step.reset) (simp add: resetGame_def stopDraw_def)

theorem scheduled_alert_survives_reset_witness:
  "timeouts (demo_state\<lparr>timeouts := [AlertWin]\<rparr>) = [AlertWin] \<and>
   tickets (resetGame (demo_state\<lparr>timeouts := [AlertWin]\<rparr>)) = [] \<and>
   fire_rel (resetGame (demo_state\<lparr>timeouts := [AlertWin]\<rparr>)) (resetGame init_game\<lparr>alerts := [AlertWin]\<rparr>)"
proof -
  have "fire_rel (resetGame (demo_state\<lparr>timeouts := [AlertWin]\<rparr>))
      ((resetGame (demo_state\<lparr>timeouts := [AlertWin]\<rparr>))\<lparr>timeouts := [], alerts := [] @ [AlertWin]\<rparr>)"
    using scheduled_alert_survives_reset[of "demo_state\<lparr>timeouts := [AlertWin]\<rparr>" AlertWin "[]"]
    by (simp add: init_game_def)
  moreover have "(resetGame (demo_state\<lparr>timeouts := [AlertWin]\<rparr>))\<lparr>timeouts := [], alerts := [] @ [AlertWin]\<rparr> =
      resetGame init_game\<lparr>alerts := [AlertWin]\<rparr>"
    by (simp add: resetGame_def stopDraw_def init_game_def)
  ultimately show ?thesis by (simp add: resetGame_def stopDraw_def)
qed

end
