(* ===== verification/Spec2Isabelle.thy ===== *)
theory Spec2Isabelle
  imports Draw_Spec Win_Reference Alerts
begin

text \<open>
  \<^bold>\<open>A verification library for the Loto ticket simulator\<close> (\<^verbatim>\<open>src/script.js\<close>).

  \<^bold>\<open>The program.\<close> A browser script. \<^verbatim>\<open>generateLottoTicket\<close> draws 15 numbers of
  \<open>[1, 99]\<close> by rejection sampling, at most three per column
  \<open>\<lfloor>(n - 1) / 10\<rfloor>\<close>; \<^verbatim>\<open>generateMultipleTickets\<close> calls it once per ticket;
  \<^verbatim>\<open>organizeTicket\<close> lays a ticket out in a 3 by 10 grid and fills rows with fewer
  than five numbers; \<^verbatim>\<open>displayTickets\<close> renders the grids as cells. A draw
  (\<^verbatim>\<open>drawItem\<close>, run every 300 ms by \<^verbatim>\<open>setInterval\<close>) shuffles the pool of
  undrawn numbers and pops one, highlights it on the tickets (\<^verbatim>\<open>highlightTickets\<close>)
  and marks every ticket with a fully highlighted row as winner
  (\<^verbatim>\<open>checkWinningTickets\<close>), which stops the draw. \<^verbatim>\<open>startDraw\<close>,
  \<^verbatim>\<open>stopDraw\<close> and \<^verbatim>\<open>resetGame\<close> drive the global state (\<^verbatim>\<open>items\<close>,
  \<^verbatim>\<open>drawInterval\<close>, \<^verbatim>\<open>gameActive\<close>); three button handlers connect it to the page.

  \<^bold>\<open>Randomness.\<close> Every handler is a function of the values \<^verbatim>\<open>Math.random()\<close>
  returns during it, a finite list (\<open>rng\<close>, theory \<open>Prelude\<close>; admissible when all
  values lie in \<open>[0, 1)\<close>). A rejection loop that needs more values than the list
  holds does not return in the model (\<open>None\<close>); the termination theorems exhibit
  lists that suffice (fifteen acceptable values for a ticket, none for the packer on a valid
  ticket, \<open>|items| - 1\<close> per tick). For the ticket's rejection loop,
  \<open>ticket_loop_progress\<close> shows that from every state of the loop some number is accepted
  for an interval of values of width 1/99, so each iteration progresses with probability at
  least 1/99 and the loop ends with probability 1; and \<open>ticket_loop_append\<close> shows more values never change
  a result. Arithmetic on \<^verbatim>\<open>Math.random() * n\<close> is exact; IEEE rounding is not modelled.

  \<^bold>\<open>Theories and what they model.\<close>
  \<^item> \<open>Prelude\<close>: the random stream, JavaScript array reads (\<^verbatim>\<open>undefined\<close> as
    \<open>None\<close>: \<open>js_get\<close>), \<^verbatim>\<open>indexOf\<close>, counting non-null cells; shared lemmas.
  \<^item> \<open>Random_Source\<close>: \<^verbatim>\<open>generateRandomNumber\<close> (lines 2--4) and the index pick
    \<^verbatim>\<open>Math.floor(Math.random() * n)\<close> (\<open>random_index\<close>); ranges, and the exact
    interval of \<^verbatim>\<open>Math.random()\<close> values producing each outcome (uniformity).
  \<^item> \<open>Ticket_Generator\<close>: \<^verbatim>\<open>generateLottoTicket\<close> (lines 7--21) as \<open>ticket_loop\<close>
    over the ticket and the \<^verbatim>\<open>columns\<close> counts, then \<open>sort\<close>;
    \<^verbatim>\<open>generateMultipleTickets\<close> (lines 24--30) as \<open>tickets_loop\<close>. The loop
    invariant \<open>ticket_inv\<close>, validity of every ticket (\<open>valid_ticket\<close>), and
    termination: a pigeonhole argument (\<open>exists_acceptable\<close>) shows some number is
    always acceptable, hence an interval of random values of width 1/99 always makes
    progress (\<open>ticket_loop_progress\<close>), and fifteen acceptable values finish the ticket.
  \<^item> \<open>Grid_Packer\<close>: \<^verbatim>\<open>organizeTicket\<close> (lines 33--65). Phase one places each
    number in the first least-filled row (\<open>indexOf(Math.min(...rows))\<close>), searching
    cyclically for a free cell (\<open>free_row\<close>, a \<^theory_text>\<open>partial_function\<close>, since the
    \<^verbatim>\<open>while\<close> of lines 42--44 never ends on a full column); phase two fills rows
    with fewer than five numbers (\<open>fill_row\<close>, \<open>fill_rows\<close>). The invariant
    \<open>pack_inv\<close> (rows balanced within one, and in the current column occupied rows at
    least as full as free ones) shows that on a valid ticket phase one already gives five
    numbers per row, so the filler never runs. \<open>organizeTicket_column_band\<close> shows
    every number placed in column \<open>c\<close> lies in \<open>10c+1..10c+10\<close>: for column 9 the
    filler's band includes 100, a number the draw never produces. \<open>free_row_diverges\<close> shows, by the partial-correctness induction rule of the
    \<^theory_text>\<open>partial_function\<close>, that the search runs forever exactly on a full column,
    so a ticket with four numbers in a column (never generated) hangs the packer.
  \<^item> \<open>Draw_Engine\<close>: \<^verbatim>\<open>generateNumbersList\<close> and the Fisher--Yates
    \<^verbatim>\<open>shuffleArray\<close> (lines 103--117): a permutation, whose last element is
    \<^verbatim>\<open>items[Math.floor(u * n)]\<close> for the first random value \<open>u\<close>.
  \<^item> \<open>Game\<close>: the page state as the record \<open>game\<close> (\<^verbatim>\<open>items\<close>,
    \<^verbatim>\<open>gameActive\<close>, the timer flag \<open>drawInterval\<close>, the drawn numbers of
    \<^verbatim>\<open>#results\<close>, the rendered tickets with their cells' values and classes, the
    alerts shown, the win alerts scheduled by \<^verbatim>\<open>setTimeout\<close> (\<open>timeouts\<close>), and the
    \<^verbatim>\<open>disabled\<close> flag and text of the start button); one function per handler (\<open>drawItem\<close>, \<open>highlightTickets\<close>,
    \<open>checkWinningTickets\<close> as a fold of \<open>check_ticket\<close>, \<open>startDraw\<close>,
    \<open>stopDraw\<close>, \<open>resetGame\<close>, \<open>displayTickets\<close>, \<open>on_generate\<close>); the page
    as the inductive relation \<open>game_step\<close> (clicks, the start button only while it is
    enabled, ticks only while the timer is armed, and the firing of scheduled alerts
    through \<open>alert_timeout\<close>, in any interleaving) with \<open>reachable\<close> states. The invariant \<open>game_inv\<close>, proved by rule
    induction, gives the pool partition, the agreement of timer, start button and
    \<^verbatim>\<open>gameActive\<close> (\<open>ui_sync\<close>, claim \<open>start_button_sync\<close>) and the exact meaning of the
    winner class, and the shape of every rendered ticket (\<open>reachable_ticket_shape\<close>,
    read through \<open>cell_value\<close>, the \<^verbatim>\<open>parseInt(cell.dataset.value)\<close> of line
    146); \<open>draw_terminates\<close> bounds every draw by \<open>|items| + 1\<close> ticks, and
    \<open>tick_draws\<close> shows any number of the pool can be the next one drawn;
    \<open>restart_after_stop\<close> shows a draw that stopped by itself can be resumed by the start
    button without a reset.
  \<^item> \<open>Win_Reference\<close>: the spec's \<^verbatim>\<open>evaluate\<close> (section 4.6) as a
    declarative definition; the \<^verbatim>\<open>forEach\<close> of \<^verbatim>\<open>checkWinningTickets\<close> is
    proved equal to it by induction on the prefix of tickets checked (\<open>check_prefix\<close>),
    and from that a tick never clears a winner and schedules one alert per new winner.
  \<^item> \<open>Alerts\<close>: the scheduled win alerts: the firing of one (\<open>fire_rel\<close>), and
    that a reset does not cancel one (\<open>scheduled_alert_survives_reset\<close>).
  \<^item> \<open>Draw_Spec\<close>: the draw engine of the spec (section 4.5) as an abstract
    machine \<open>spec_step\<close> and the refinement of the page into it via \<open>abs_game\<close>.
  \<^item> this theory: properties that span components: generation end to end, the round
    trip from \<^verbatim>\<open>generateMultipleTickets\<close> to the numbers shown on the page, and the
    two scenarios of spec section 5 as a concrete run from the generated demo ticket (four
    ticks draw four numbers of a row without a win, a fifth completes the row and stops
    the draw). The run picks each number with the random value \<open>k / n\<close> for its index
    \<open>k\<close> in the pool and zeros for the rest of the shuffle; the pool is tracked only as a
    multiset, so no 99-element list is evaluated.

  \<^bold>\<open>Findings.\<close> The filler band of column 9 is \<open>91..100\<close> (line 55); an input of
  0 tickets becomes 5 (\<^verbatim>\<open>parseInt(value) || 5\<close>), where the spec rejects it; the
  page can restart a stopped draw (the abstract machine needs a \<open>restart\<close> rule the
  spec lacks, and \<open>restart_after_stop\<close> shows it is used) and has no stop control; the
  filler phase never runs on generated tickets; the row search hangs on a column holding
  three numbers, a case the spec leaves open; a win alert scheduled before a reset is still
  shown after it, over the fresh page.

  \<^bold>\<open>Plan for later work.\<close> Termination of the filler loop with enough randomness
  on arbitrary tickets (it runs only on tickets \<^verbatim>\<open>generateLottoTicket\<close> never
  produces); the probability reading of the uniformity lemmas (the model keeps the random
  values as an explicit list and proves which interval of values yields each outcome).

  \<^bold>\<open>Not modelled.\<close> DOM layout and styling (element creation and class names are
  represented by the structure of the record, not as nodes), the labels of the other buttons
  (never changed by the script), time itself (the 300 ms interval and the 500 ms alert delay:
  ticks, clicks and alert firings may interleave in any order, which over-approximates the
  orders the delays allow), the modal blocking of \<^verbatim>\<open>alert\<close>, IEEE rounding of
  \<^verbatim>\<open>Math.random() * n\<close>, and parsing of the input field beyond
  \<^verbatim>\<open>parseInt(value) || 5\<close> (the input is given as the parsed \<open>int option\<close>).
\<close>

section \<open>Properties across components\<close>

text \<open>
  C3. Generation end to end: a click on the generate button with a count in
  \<open>[1, 20]\<close> resets the page (full pool, no drawn number, game inactive) and shows
  exactly that many tickets, each rendered from a grid of \<^verbatim>\<open>organizeTicket\<close> with three
  rows of ten cells, five numbers of \<open>[1, 99]\<close> per row, nothing highlighted and no
  winner: \<^verbatim>\<open>generateMultipleTickets\<close>, \<^verbatim>\<open>organizeTicket\<close> and
  \<^verbatim>\<open>displayTickets\<close> composed as the handler composes them.
\<close>

theorem generate_click_tickets:
  assumes v: "valid_rng us" and g: "on_generate inp us s = Some s'"
    and n: "1 \<le> ticket_count inp" "ticket_count inp \<le> 20"
  shows "length (tickets s') = nat (ticket_count inp) \<and> (\<forall>t\<in>set (tickets s'). ticket_ok [] t \<and> \<not> winner t) \<and>
         items s' = generateNumbersList \<and> results s' = [] \<and> \<not> gameActive s' \<and> \<not> drawInterval s'"
proof -
  obtain ts us' ds r where m: "generateMultipleTickets (ticket_count inp) us = Some (ts, us')"
    and d: "displayTickets ts us' = Some (ds, r)" and s': "s' = (resetGame s)\<lparr>tickets := ds\<rparr>"
    using g n by (auto simp: on_generate_def Let_def split: option.splits)
  have ts: "list_all valid_ticket ts" "length ts = nat (ticket_count inp)"
    using tickets_loop_valid[of "ticket_count inp" 0 "[]" us ts us'] m v
    by (simp_all add: generateMultipleTickets_def)
  have ok: "\<forall>t\<in>set ds. ticket_ok [] t" using displayTickets_ok[OF ts(1) d] .
  have "\<forall>t\<in>set ds. \<not> winner t" using ok ticket_ok_nil_not_winner by blast
  then show ?thesis
    using ok s' ts(2) displayTickets_length[OF d] by (simp add: resetGame_def stopDraw_def)
qed

theorem generate_click_tickets_witness:
  "valid_rng demo_rng \<and> on_generate (Some 1) demo_rng init_game = Some demo_state \<and>
   1 \<le> ticket_count (Some 1) \<and> ticket_count (Some 1) \<le> 20 \<and>
   length (tickets demo_state) = nat (ticket_count (Some 1)) \<and>
   ticket_ok [] (render_ticket demo_grid) \<and> \<not> winner (render_ticket demo_grid)"
proof -
  have v: "valid_rng demo_rng" by (simp add: rand_for_range)
  have n: "1 \<le> ticket_count (Some 1)" "ticket_count (Some 1) \<le> 20" by (simp_all add: ticket_count_def)
  have "tickets demo_state = [render_ticket demo_grid]" by simp
  then show ?thesis using generate_click_tickets[OF v demo_generate n] v demo_generate n by auto
qed


text \<open>
  C15. Round trip from generation to the page: after a click on the generate button with a
  count in \<open>[1, 20]\<close>, reading back the numbers of each rendered ticket (the
  \<^verbatim>\<open>data-value\<close> of its cells) and sorting them gives back exactly the tickets
  \<^verbatim>\<open>generateMultipleTickets\<close> produced, in order: packing and rendering lose,
  duplicate and invent no number.
\<close>

theorem generate_click_roundtrip:
  assumes v: "valid_rng us" and g: "on_generate inp us s = Some s'"
    and n: "1 \<le> ticket_count inp" "ticket_count inp \<le> 20"
  shows "\<exists>ts us'. generateMultipleTickets (ticket_count inp) us = Some (ts, us') \<and>
           map (\<lambda>d. sort (ticket_values d)) (tickets s') = ts"
proof -
  obtain ts us' ds r where m: "generateMultipleTickets (ticket_count inp) us = Some (ts, us')"
    and d: "displayTickets ts us' = Some (ds, r)" and s': "s' = (resetGame s)\<lparr>tickets := ds\<rparr>"
    using g n by (auto simp: on_generate_def Let_def split: option.splits)
  have "list_all valid_ticket ts"
    using tickets_loop_valid[of "ticket_count inp" 0 "[]" us ts us'] m v
    by (simp add: generateMultipleTickets_def)
  then show ?thesis using displayTickets_values[OF _ d] m s' by simp
qed

theorem generate_click_roundtrip_witness:
  "valid_rng demo_rng \<and> on_generate (Some 1) demo_rng init_game = Some demo_state \<and>
   1 \<le> ticket_count (Some 1) \<and> ticket_count (Some 1) \<le> 20 \<and>
   generateMultipleTickets 1 demo_rng = Some ([[1, 2, 5, 11, 12, 13, 21, 22, 23, 31, 32, 33, 41, 42, 43]], []) \<and>
   sort (ticket_values (render_ticket demo_grid)) = [1, 2, 5, 11, 12, 13, 21, 22, 23, 31, 32, 33, 41, 42, 43]"
proof -
  have v: "valid_rng demo_rng" by (simp add: rand_for_range)
  have n: "1 \<le> ticket_count (Some 1)" "ticket_count (Some 1) \<le> 20" by (simp_all add: ticket_count_def)
  have m: "generateMultipleTickets 1 demo_rng =
      Some ([[1, 2, 5, 11, 12, 13, 21, 22, 23, 31, 32, 33, 41, 42, 43]], [])"
    by (simp add: generateMultipleTickets_def tickets_loop.simps generateLottoTicket_def column_free_def
        column_of_def js_get_def)
  have c: "ticket_count (Some 1) = 1" by (simp add: ticket_count_def)
  obtain ts us' where a: "generateMultipleTickets (ticket_count (Some 1)) demo_rng = Some (ts, us')"
    "map (\<lambda>d. sort (ticket_values d)) (tickets demo_state) = ts"
    using generate_click_roundtrip[OF v demo_generate n] by blast
  have "ts = [[1, 2, 5, 11, 12, 13, 21, 22, 23, 31, 32, 33, 41, 42, 43]]" using a(1) m c by simp
  then have "sort (ticket_values (render_ticket demo_grid)) = [1, 2, 5, 11, 12, 13, 21, 22, 23, 31, 32, 33, 41, 42, 43]"
    using a(2) by simp
  then show ?thesis using v demo_generate n m by blast
qed


text \<open>
  C5. The two scenarios of the specification (section 5) on the page itself: after one
  ticket is generated and the draw started, four timer ticks can draw 1, 11, 21 and 31,
  four of the five numbers of the ticket's first row, and the ticket has not won and the
  draw goes on; a fifth tick can draw 41, and then the ticket is marked as winner, the
  draw has stopped and exactly one win alert is scheduled; it is shown when its
  \<^verbatim>\<open>setTimeout\<close> fires. Both states are reachable.
\<close>

theorem row_win_scenario:
  "\<exists>s4 s5. (tick_rel ^^ 4) (startDraw demo_state) s4 \<and> tick_rel s4 s5 \<and>
     reachable s4 \<and> reachable s5 \<and>
     results s4 = [1, 11, 21, 31] \<and> gameActive s4 \<and> \<not> winner (tickets s4 ! 0) \<and>
     results s5 = [1, 11, 21, 31, 41] \<and> winner (tickets s5 ! 0) \<and> \<not> gameActive s5 \<and>
     timeouts s5 = [AlertWin] \<and> alerts s5 = [] \<and>
     game_step s5 AlertFire (s5\<lparr>timeouts := [], alerts := [AlertWin]\<rparr>)"
proof -
  define hlT :: "int list \<Rightarrow> bool \<Rightarrow> dticket" where
    "hlT = (\<lambda>D w. \<lparr>drows = map (map (\<lambda>c. case c of None \<Rightarrow> EmptyCell | Some v \<Rightarrow> NumCell v (v \<in> set D))) demo_grid,
                   winner = w\<rparr>)"
  have hmap: "highlight_ticket x (hlT D w) = hlT (D @ [x]) w" for x D w
    by (auto simp: hlT_def highlight_ticket_def highlight_cell_def)
  have hstep: "highlightTickets x (s\<lparr>items := I, results := R\<rparr>) =
      s\<lparr>items := I, results := R, tickets := [hlT (D @ [x]) False]\<rparr>"
    if "tickets s = [hlT D False]" "\<not> has_winning_line (hlT (D @ [x]) False)" for s x I R D
    using that by (simp add: highlightTickets_eq checkWinningTickets_def check_ticket_def hmap)
  have hwin: "tickets (highlightTickets x (s\<lparr>items := I, results := R\<rparr>)) = [hlT (D @ [x]) True] \<and>
      \<not> gameActive (highlightTickets x (s\<lparr>items := I, results := R\<rparr>)) \<and>
      timeouts (highlightTickets x (s\<lparr>items := I, results := R\<rparr>)) = timeouts s @ [AlertWin] \<and>
      alerts (highlightTickets x (s\<lparr>items := I, results := R\<rparr>)) = alerts s"
    if "tickets s = [hlT D False]" "has_winning_line (hlT (D @ [x]) False)" for s x I R D
    using that by (simp add: highlightTickets_eq checkWinningTickets_def check_ticket_def hmap stopDraw_def Let_def)
      (simp add: hlT_def)
  have ev_hl: "has_winning_line (hlT D w) \<longleftrightarrow> set [1, 11, 21, 31, 41] \<subseteq> set D \<or>
      set [2, 12, 22, 32, 42] \<subseteq> set D \<or> set [5, 13, 23, 33, 43] \<subseteq> set D" for D w
    by (simp add: hlT_def has_winning_line_def cells_count_def hl_count_def is_highlighted_def)
  have pool: "x \<in> set (items s)"
    if "mset (items s) = mset [1..99] - mset D" "x \<in> {1..99}" "x \<notin> set D" for s x D
    using in_mset_diff[of x "[1..99]" D] that by (metis set_mset_mset set_upto)
  have next_step: "\<exists>s'. tick_rel s s' \<and> mset (items s') = mset [1..99] - mset (D @ [x]) \<and>
        results s' = D @ [x] \<and> tickets s' = [hlT (D @ [x]) False] \<and> gameActive s' \<and> drawInterval s' \<and>
        alerts s' = alerts s \<and> timeouts s' = timeouts s"
    if p: "mset (items s) = mset [1..99] - mset D" "results s = D" "tickets s = [hlT D False]"
       "gameActive s" "drawInterval s" "x \<in> {1..99}" "x \<notin> set D"
       "\<not> has_winning_line (hlT (D @ [x]) False)" for s x D
  proof -
    obtain I where "tick_rel s (highlightTickets x (s\<lparr>items := I, results := results s @ [x]\<rparr>))"
        "mset I = mset (items s) - {#x#}"
      using tick_draws[OF pool[OF p(1,6,7)] p(4,5)] by blast
    then show ?thesis using hstep[OF p(3,8)] p(1,2,4,5)
      by (intro exI[of _ "s\<lparr>items := I, results := D @ [x], tickets := [hlT (D @ [x]) False]\<rparr>"])
        (simp add: diff_diff_add add.commute)
  qed
  define S0 where "S0 = startDraw demo_state"
  have s0: "mset (items S0) = mset [1..99] - mset [] \<and> results S0 = [] \<and> tickets S0 = [hlT [] False] \<and>
      gameActive S0 \<and> drawInterval S0 \<and> alerts S0 = [] \<and> timeouts S0 = []"
    by (simp add: S0_def startDraw_def init_game_def generateNumbersList_def render_ticket_def render_cell_def hlT_def)
  obtain S1 where t1: "tick_rel S0 S1" and e1: "mset (items S1) = mset [1..99] - mset [1]"
      "results S1 = [1]" "tickets S1 = [hlT [1] False]" "gameActive S1" "drawInterval S1" "alerts S1 = []" "timeouts S1 = []"
    using next_step[of S0 "[]" 1] s0 by (auto simp: ev_hl)
  obtain S2 where t2: "tick_rel S1 S2" and e2: "mset (items S2) = mset [1..99] - mset [1, 11]"
      "results S2 = [1, 11]" "tickets S2 = [hlT [1, 11] False]" "gameActive S2" "drawInterval S2" "alerts S2 = []" "timeouts S2 = []"
    using next_step[of S1 "[1]" 11] e1 by (auto simp: ev_hl)
  obtain S3 where t3: "tick_rel S2 S3" and e3: "mset (items S3) = mset [1..99] - mset [1, 11, 21]"
      "results S3 = [1, 11, 21]" "tickets S3 = [hlT [1, 11, 21] False]" "gameActive S3" "drawInterval S3" "alerts S3 = []" "timeouts S3 = []"
    using next_step[of S2 "[1, 11]" 21] e2 by (auto simp: ev_hl)
  obtain S4 where t4: "tick_rel S3 S4" and e4: "mset (items S4) = mset [1..99] - mset [1, 11, 21, 31]"
      "results S4 = [1, 11, 21, 31]" "tickets S4 = [hlT [1, 11, 21, 31] False]" "gameActive S4" "drawInterval S4" "alerts S4 = []" "timeouts S4 = []"
    using next_step[of S3 "[1, 11, 21]" 31] e3 by (auto simp: ev_hl)
  obtain I where t5: "tick_rel S4 (highlightTickets 41 (S4\<lparr>items := I, results := results S4 @ [41]\<rparr>))"
    using tick_draws[OF pool[OF e4(1), of 41] e4(4,5)] by auto
  have r5: "results (highlightTickets 41 (S4\<lparr>items := I, results := results S4 @ [41]\<rparr>)) = [1, 11, 21, 31, 41]"
    using checkWinningTickets_spec e4(2) by (simp add: highlightTickets_eq)
  have w5: "tickets (highlightTickets 41 (S4\<lparr>items := I, results := results S4 @ [41]\<rparr>)) =
        [hlT [1, 11, 21, 31, 41] True] \<and>
      \<not> gameActive (highlightTickets 41 (S4\<lparr>items := I, results := results S4 @ [41]\<rparr>)) \<and>
      timeouts (highlightTickets 41 (S4\<lparr>items := I, results := results S4 @ [41]\<rparr>)) = [AlertWin] \<and>
      alerts (highlightTickets 41 (S4\<lparr>items := I, results := results S4 @ [41]\<rparr>)) = []"
    using hwin[OF e4(3)] e4(6,7) by (simp add: ev_hl)
  have r0: "reachable S0"
    using demo_start unfolding S0_def .
  have p4: "(tick_rel ^^ 4) S0 S4" using t1 t2 t3 t4 by (simp add: numeral_eq_Suc relcompp_apply) blast
  have "reachable S4" using reachable_ticks[OF p4 r0] .
  moreover have "reachable (highlightTickets 41 (S4\<lparr>items := I, results := results S4 @ [41]\<rparr>))"
    using reachable_ticks[of 1, OF _ \<open>reachable S4\<close>] t5 by (simp add: relcompp_apply)
  moreover have "game_step S5 AlertFire (S5\<lparr>timeouts := [], alerts := [AlertWin]\<rparr>)"
    if "timeouts S5 = [AlertWin]" "alerts S5 = []" for S5
    using that by (intro game_step.fire) (simp add: alert_timeout_def)
  ultimately show ?thesis using p4 t5 r5 w5 e4 unfolding S0_def
    by (intro exI[of _ S4] exI[of _ "highlightTickets 41 (S4\<lparr>items := I, results := results S4 @ [41]\<rparr>)"])
      (simp add: hlT_def)
qed

end
